theory Spec2Isabelle
  imports Main
begin

section \<open>tsh: a tiny shell with job control\<close>

text \<open>
  A shallow embedding of \<^verbatim>\<open>tsh.c\<close>. A C string is the list of its characters before the
  terminating NUL. The global array \<^verbatim>\<open>jobs[MAXJOBS]\<close> is a list of \<^verbatim>\<open>MAXJOBS\<close> slots,
  and a pointer \<^verbatim>\<open>&jobs[i]\<close> is the index \<open>i\<close>.
\<close>

subsection \<open>Manifest constants\<close>

definition MAXLINE :: nat where [simp]: "MAXLINE = 1024"
definition MAXARGS :: nat where [simp]: "MAXARGS = 128"
definition MAXJOBS :: nat where [simp]: "MAXJOBS = 16"

definition UNDEF :: int where [simp]: "UNDEF = 0"
definition FG :: int where [simp]: "FG = 1"
definition BG :: int where [simp]: "BG = 2"
definition ST :: int where [simp]: "ST = 3"

definition nl :: char where [simp]: "nl = CHR 0x0A"

subsection \<open>C integers\<close>

text \<open>
  The values of the C types \<^verbatim>\<open>int\<close> and \<^verbatim>\<open>pid_t\<close> are the integers from \<^verbatim>\<open>INT_MIN\<close>
  to \<^verbatim>\<open>INT_MAX\<close>, 32 bits in two's complement. They are modelled as \<^typ>\<open>int\<close>, and the
  two additions of the program that can leave this range, \<^verbatim>\<open>nextjid++\<close> in \<^verbatim>\<open>addjob\<close> and
  \<^verbatim>\<open>maxjid(jobs)+1\<close> in \<^verbatim>\<open>deletejob\<close>, wrap around as the machine's addition does:
  \<open>int32\<close> reduces a sum to the 32-bit value with the same low bits.
\<close>

definition INT_MAX :: int where "INT_MAX = 2147483647"
definition INT_MIN :: int where "INT_MIN = - 2147483648"

definition int32 :: "int \<Rightarrow> int" where
  "int32 x = (x - INT_MIN) mod 4294967296 + INT_MIN"

subsection \<open>Global state\<close>

record job_t =
  pid :: int
  jid :: int
  state :: int
  cmdline :: string

text \<open>
  The program sends its output along two ways: \<^verbatim>\<open>printf\<close> hands the text to the buffer of
  \<^verbatim>\<open>stdout\<close>, from where it reaches the file descriptor at the next flush, and \<^verbatim>\<open>Write\<close>
  writes the text to the file descriptor at once. An output call is recorded with the way it
  takes.
\<close>

datatype output_call = Printed string | Written string

text \<open>
  The globals \<^verbatim>\<open>jobs\<close>, \<^verbatim>\<open>nextjid\<close> and \<^verbatim>\<open>verbose\<close>, together with two traces of
  the effects on the outside world: \<open>out\<close> lists the output calls of \<^verbatim>\<open>eval\<close>, the builtin
  commands, the job list routines and the signal handlers in the order in which the program
  makes them (the prompt and the calls of \<^verbatim>\<open>fflush\<close> in \<^verbatim>\<open>main\<close> are not recorded), and
  \<open>forked\<close> lists the process ids of the children created by \<^verbatim>\<open>Fork\<close>.
\<close>

record shell =
  jobs :: "job_t list"
  nextjid :: int
  verbose :: bool
  out :: "output_call list"
  forked :: "int list"

subsection \<open>Outcomes that end the run\<close>

text \<open>
  A call of \<^verbatim>\<open>exit\<close> (directly or through \<^verbatim>\<open>unix_error\<close>), a successful
  \<^verbatim>\<open>execve\<close> and undefined behaviour end the run of the shell's code. Undefined behaviour
  is a value of its own: reading through a null pointer, or writing past the end of a
  fixed-size array.
\<close>

datatype fault = NullDeref | BufferOverflow

datatype stop = Exited int | Crashed fault | Execed

subsection \<open>Formatting of \<^verbatim>\<open>%d\<close>\<close>

definition digit_char :: "nat \<Rightarrow> char" where
  "digit_char n = ''0123456789'' ! (n mod 10)"

fun digits :: "nat \<Rightarrow> string" where
  "digits n = (if n < 10 then [digit_char n] else digits (n div 10) @ [digit_char n])"

definition dec :: "int \<Rightarrow> string" where
  "dec i = (if i < 0 then CHR ''-'' # digits (nat (- i)) else digits (nat i))"

subsection \<open>Job list helper routines\<close>

definition clearjob :: "job_t \<Rightarrow> job_t" where
  "clearjob job = job\<lparr>pid := 0, jid := 0, state := UNDEF, cmdline := []\<rparr>"

definition initjobs :: "job_t list \<Rightarrow> job_t list" where
  "initjobs js = map clearjob js"

text \<open>
  The loops \<^verbatim>\<open>for (i = 0; i < MAXJOBS; i++) if (test(jobs[i])) ...\<close> that leave at the first
  hit: the index of the first slot that passes the test, if any.
\<close>

primrec first_slot :: "(job_t \<Rightarrow> bool) \<Rightarrow> job_t list \<Rightarrow> nat option" where
  "first_slot P [] = None"
| "first_slot P (j # js) = (if P j then Some 0 else map_option Suc (first_slot P js))"

definition maxjid :: "job_t list \<Rightarrow> int" where
  "maxjid js = foldl (\<lambda>m j. if jid j > m then jid j else m) 0 js"

text \<open>
  \<^verbatim>\<open>addjob\<close> returns its result and the new state. Once it has found a free slot it copies
  the command line with \<^verbatim>\<open>strcpy\<close> into the slot's \<^verbatim>\<open>cmdline[MAXLINE]\<close>, which has room
  for \<^verbatim>\<open>MAXLINE - 1\<close> characters and the terminating NUL: a longer command line is written
  past the end of the array.
\<close>

definition added_msg :: "job_t \<Rightarrow> string" where
  "added_msg j = ''Added job ['' @ dec (jid j) @ ''] '' @ dec (pid j) @ '' '' @ cmdline j @ [nl]"

definition addjob :: "int \<Rightarrow> int \<Rightarrow> string \<Rightarrow> shell \<Rightarrow> stop + (bool \<times> shell)" where
  "addjob p st cl s =
     (if p < 1 then Inr (False, s)
      else case first_slot (\<lambda>j. pid j = 0) (jobs s) of
        Some i \<Rightarrow>
          (let j = (jobs s ! i)\<lparr>pid := p, state := st, jid := nextjid s\<rparr>;
               n = int32 (nextjid s + 1);
               n' = (if n > int MAXJOBS then 1 else n)
           in if MAXLINE \<le> length cl then Inl (Crashed BufferOverflow)
              else
                (let j' = j\<lparr>cmdline := cl\<rparr>;
                     s' = s\<lparr>jobs := (jobs s)[i := j'], nextjid := n'\<rparr>
                 in Inr (True, if verbose s then s'\<lparr>out := out s' @ [Printed (added_msg j')]\<rparr>
                               else s')))
      | None \<Rightarrow>
          Inr (False, s\<lparr>out := out s @ [Printed (''Tried to create too many jobs'' @ [nl])]\<rparr>))"

text \<open>\<^verbatim>\<open>deletejob\<close> returns its result and the new state.\<close>

definition deletejob :: "int \<Rightarrow> shell \<Rightarrow> bool \<times> shell" where
  "deletejob p s =
     (if p < 1 then (False, s)
      else case first_slot (\<lambda>j. pid j = p) (jobs s) of
        Some i \<Rightarrow>
          (let js = (jobs s)[i := clearjob (jobs s ! i)]
           in (True, s\<lparr>jobs := js, nextjid := int32 (maxjid js + 1)\<rparr>))
      | None \<Rightarrow> (False, s))"

definition fgpid :: "job_t list \<Rightarrow> int" where
  "fgpid js = (case first_slot (\<lambda>j. state j = FG) js of Some i \<Rightarrow> pid (js ! i) | None \<Rightarrow> 0)"

definition getjobpid :: "job_t list \<Rightarrow> int \<Rightarrow> nat option" where
  "getjobpid js p = (if p < 1 then None else first_slot (\<lambda>j. pid j = p) js)"

definition getjobjid :: "job_t list \<Rightarrow> int \<Rightarrow> nat option" where
  "getjobjid js i = (if i < 1 then None else first_slot (\<lambda>j. jid j = i) js)"

definition pid2jid :: "job_t list \<Rightarrow> int \<Rightarrow> int" where
  "pid2jid js p =
     (if p < 1 then 0
      else case first_slot (\<lambda>j. pid j = p) js of Some i \<Rightarrow> jid (js ! i) | None \<Rightarrow> 0)"

definition init_shell :: "bool \<Rightarrow> shell" where
  "init_shell v =
     \<lparr>jobs = initjobs (replicate MAXJOBS \<lparr>pid = 0, jid = 0, state = 0, cmdline = []\<rparr>),
      nextjid = 1, verbose = v, out = [], forked = []\<rparr>"

definition state_label :: "nat \<Rightarrow> int \<Rightarrow> string" where
  "state_label i st =
     (if st = BG then ''Running ''
      else if st = FG then ''Foreground ''
      else if st = ST then ''Stopped ''
      else ''listjobs: Internal error: job['' @ dec (int i) @ ''].state='' @ dec st @ '' '')"

definition listjobs_slot :: "nat \<times> job_t \<Rightarrow> output_call list" where
  "listjobs_slot ij =
     (case ij of (i, j) \<Rightarrow>
        if pid j \<noteq> 0
        then [Printed (''['' @ dec (jid j) @ ''] ('' @ dec (pid j) @ '') ''),
              Printed (state_label i (state j)), Printed (cmdline j)]
        else [])"

definition listjobs :: "shell \<Rightarrow> shell" where
  "listjobs s = s\<lparr>out := out s @ concat (map listjobs_slot (enumerate 0 (jobs s)))\<rparr>"

subsection \<open>parseline\<close>

definition quote :: char where [simp]: "quote = CHR 0x27"
definition space :: char where [simp]: "space = CHR 0x20"

definition skip_spaces :: "string \<Rightarrow> string" where
  "skip_spaces buf = dropWhile (\<lambda>c. c = space) buf"

text \<open>
  \<^verbatim>\<open>delim = strchr(buf, c); ... *delim = '\0'; buf = delim + 1\<close>: the characters before
  the first \<open>c\<close> and those after it, or nothing when \<^verbatim>\<open>strchr\<close> returns \<^verbatim>\<open>NULL\<close>.
\<close>

definition strchr_split :: "char \<Rightarrow> string \<Rightarrow> (string \<times> string) option" where
  "strchr_split c buf =
     (if c \<in> set buf
      then Some (takeWhile (\<lambda>x. x \<noteq> c) buf, tl (dropWhile (\<lambda>x. x \<noteq> c) buf))
      else None)"

definition find_delim :: "string \<Rightarrow> (string \<times> string) option" where
  "find_delim buf =
     (case buf of
        c # b \<Rightarrow> if c = quote then strchr_split quote b else strchr_split space buf
      | [] \<Rightarrow> strchr_split space buf)"

lemma strchr_split_shorter: "strchr_split c buf = Some (a, r) \<Longrightarrow> length r < length buf"
proof -
  assume h: "strchr_split c buf = Some (a, r)"
  then have m: "c \<in> set buf" and r: "r = tl (dropWhile (\<lambda>x. x \<noteq> c) buf)"
    by (auto simp: strchr_split_def split: if_splits)
  from m have "dropWhile (\<lambda>x. x \<noteq> c) buf \<noteq> []" by simp
  then have "length r < length (dropWhile (\<lambda>x. x \<noteq> c) buf)" using r by simp
  also have "\<dots> \<le> length buf" by (rule length_dropWhile_le)
  finally show ?thesis .
qed

lemma find_delim_shorter: "find_delim buf = Some (a, r) \<Longrightarrow> length (skip_spaces r) < length buf"
proof -
  assume h: "find_delim buf = Some (a, r)"
  have "length (skip_spaces r) \<le> length r"
    unfolding skip_spaces_def by (rule length_dropWhile_le)
  moreover have "length r < length buf"
    using h strchr_split_shorter [of _ _ a r]
    by (fastforce simp: find_delim_def split: list.splits if_splits)
  ultimately show ?thesis by simp
qed

text \<open>The \<^verbatim>\<open>while (delim)\<close> loop: one argument per round, until no delimiter is found.\<close>

function tokens :: "string \<Rightarrow> string list" where
  "tokens buf =
     (case find_delim buf of
        None \<Rightarrow> []
      | Some (arg, rest) \<Rightarrow> arg # tokens (skip_spaces rest))"
  by pat_completeness auto
termination
  by (relation "measure length") (auto dest: find_delim_shorter)

declare tokens.simps [simp del]

text \<open>
  The result is the returned flag and the contents of \<^verbatim>\<open>argv\<close> up to its \<^verbatim>\<open>NULL\<close>.
  \<^verbatim>\<open>strcpy\<close> into \<^verbatim>\<open>array[MAXLINE]\<close> overflows for a line of \<^verbatim>\<open>MAXLINE\<close> characters or
  more, \<^verbatim>\<open>buf[strlen(buf)-1]\<close> is outside the array for an empty line, and \<^verbatim>\<open>argv\<close> has
  room for \<^verbatim>\<open>MAXARGS - 1\<close> arguments and the final \<^verbatim>\<open>NULL\<close>.
\<close>

definition parseline :: "string \<Rightarrow> stop + (bool \<times> string list)" where
  "parseline cl =
     (if MAXLINE \<le> length cl \<or> cl = [] then Inl (Crashed BufferOverflow)
      else
        let argv = tokens (skip_spaces (butlast cl @ [space]))
        in if MAXARGS \<le> length argv then Inl (Crashed BufferOverflow)
           else if argv = [] then Inr (True, [])
           else if last argv \<noteq> [] \<and> hd (last argv) = CHR ''&'' then Inr (True, butlast argv)
           else Inr (False, argv))"

subsection \<open>The operating system's answers\<close>

text \<open>
  What the environment contributes while one command line is evaluated: the value returned
  by \<^verbatim>\<open>fork\<close>, whether \<^verbatim>\<open>execve\<close> succeeds (it is called in the child, where
  \<^verbatim>\<open>fork\<close> returned 0), whether \<^verbatim>\<open>kill(pid, SIGCONT)\<close> succeeds, and the indeterminate
  initial contents of the uninitialised locals \<^verbatim>\<open>pid\<close> of \<^verbatim>\<open>eval\<close> and \<^verbatim>\<open>jid\<close> of
  \<^verbatim>\<open>do_bgfg\<close>. The wrappers \<^verbatim>\<open>Sigprocmask\<close>, \<^verbatim>\<open>Sigfillset\<close>, \<^verbatim>\<open>Sigemptyset\<close>,
  \<^verbatim>\<open>Sigaddset\<close> and \<^verbatim>\<open>Write\<close> are taken to succeed.
\<close>

record env =
  fork_ret :: int
  exec_ok :: bool
  kill_ok :: bool
  pid0 :: int
  jid0 :: int

subsection \<open>The job specification read by \<^verbatim>\<open>sscanf(argv[1], "%%%d", &jid)\<close>\<close>

definition isspace :: "char \<Rightarrow> bool" where
  "isspace c = (c \<in> set [CHR 0x20, CHR 0x09, CHR 0x0A, CHR 0x0B, CHR 0x0C, CHR 0x0D])"

definition isdigit :: "char \<Rightarrow> bool" where
  "isdigit c = (c \<in> set ''0123456789'')"

definition digit_val :: "char \<Rightarrow> int" where
  "digit_val c = int (length (takeWhile (\<lambda>d. d \<noteq> c) ''0123456789''))"

text \<open>
  The directive \<^verbatim>\<open>%d\<close>: white space, an optional sign, at least one digit. The C library
  converts the digits as \<^verbatim>\<open>strtol\<close> does, to a 64-bit \<^verbatim>\<open>long\<close> that stops at
  \<^verbatim>\<open>LONG_MIN\<close> and \<^verbatim>\<open>LONG_MAX\<close>, and stores the low 32 bits of the result in the
  \<^verbatim>\<open>int\<close>: \<^verbatim>\<open>%4294967297\<close> is read as 1.
\<close>

definition LONG_MAX :: int where "LONG_MAX = 9223372036854775807"
definition LONG_MIN :: int where "LONG_MIN = - 9223372036854775808"

definition strtol_range :: "int \<Rightarrow> int" where
  "strtol_range x = (if x < LONG_MIN then LONG_MIN else if LONG_MAX < x then LONG_MAX else x)"

definition scan_int :: "string \<Rightarrow> int option" where
  "scan_int s =
     (let t = dropWhile isspace s;
          neg = (t \<noteq> [] \<and> hd t = CHR ''-'');
          u = (if t \<noteq> [] \<and> (hd t = CHR ''-'' \<or> hd t = CHR ''+'') then tl t else t);
          ds = takeWhile isdigit u;
          v = foldl (\<lambda>a c. 10 * a + digit_val c) 0 ds
      in if ds = [] then None else Some (int32 (strtol_range (if neg then - v else v))))"

text \<open>
  The directive \<^verbatim>\<open>%%\<close> skips white space and matches one percent sign. \<open>None\<close> means that
  no conversion was made, so that \<^verbatim>\<open>jid\<close> keeps its indeterminate value.
\<close>

definition scan_jobspec :: "string \<Rightarrow> int option" where
  "scan_jobspec s =
     (case dropWhile isspace s of
        c # r \<Rightarrow> if c = CHR ''%'' then scan_int r else None
      | [] \<Rightarrow> None)"

subsection \<open>Builtin commands\<close>

definition job_msg :: "int \<Rightarrow> int \<Rightarrow> string \<Rightarrow> string" where
  "job_msg i p cl = ''['' @ dec i @ ''] ('' @ dec p @ '') '' @ cl"

text \<open>
  \<^verbatim>\<open>do_bgfg\<close> returns the value it stores in \<^verbatim>\<open>*pid\<close> and the new state.
  \<^verbatim>\<open>argv[1]\<close> is \<^verbatim>\<open>NULL\<close> when the command has no argument, and \<^verbatim>\<open>getjobjid\<close> returns
  \<^verbatim>\<open>NULL\<close> when no slot has the job id; both pointers are used unchecked.
\<close>

definition do_bgfg :: "env \<Rightarrow> string list \<Rightarrow> shell \<Rightarrow> stop + (int \<times> shell)" where
  "do_bgfg e argv s =
     (if length argv < 2 then Inl (Crashed NullDeref)
      else
        let i = (case scan_jobspec (argv ! 1) of Some n \<Rightarrow> n | None \<Rightarrow> jid0 e)
        in case getjobjid (jobs s) i of
             None \<Rightarrow> Inl (Crashed NullDeref)
           | Some k \<Rightarrow>
               (let job = jobs s ! k; p = pid job
                in if \<not> kill_ok e then Inl (Exited 1)
                   else if argv ! 0 = ''bg'' then
                     (if MAXLINE + 20 \<le> length (job_msg i p (cmdline job))
                      then Inl (Crashed BufferOverflow)
                      else Inr (p, s\<lparr>jobs := (jobs s)[k := job\<lparr>state := BG\<rparr>],
                                     out := out s @ [Written (job_msg i p (cmdline job))]\<rparr>))
                   else Inr (p, s\<lparr>jobs := (jobs s)[k := job\<lparr>state := FG\<rparr>]\<rparr>)))"

text \<open>
  \<^verbatim>\<open>builtin_cmd\<close> returns its result, the contents of \<^verbatim>\<open>*pid\<close> (the argument \<open>p\<close> when
  nothing was stored there) and the new state. \<^verbatim>\<open>argv[0]\<close> is \<^verbatim>\<open>NULL\<close> for an empty
  argument vector and is passed to \<^verbatim>\<open>strcmp\<close> unchecked.
\<close>

definition builtin_cmd :: "env \<Rightarrow> string list \<Rightarrow> int \<Rightarrow> shell \<Rightarrow> stop + (bool \<times> int \<times> shell)" where
  "builtin_cmd e argv p s =
     (case argv of
        [] \<Rightarrow> Inl (Crashed NullDeref)
      | a # _ \<Rightarrow>
          if a = ''quit'' then Inl (Exited 0)
          else if a = ''jobs'' then Inr (True, p, listjobs s)
          else if a = ''fg'' \<or> a = ''bg'' then
            (case do_bgfg e argv s of
               Inl x \<Rightarrow> Inl x
             | Inr (p', s') \<Rightarrow> Inr (True, p', s'))
          else Inr (False, p, s))"

subsection \<open>eval\<close>

text \<open>
  The body of \<^verbatim>\<open>eval\<close> up to its last statement \<^verbatim>\<open>waitfg(pid)\<close>: the result is the
  value of \<^verbatim>\<open>pid\<close> passed to \<^verbatim>\<open>waitfg\<close> and the new state. Where \<^verbatim>\<open>fork\<close> returned 0
  the code runs in the child: a successful \<^verbatim>\<open>execve\<close> replaces the program, a failed one
  returns and the child goes on with \<^verbatim>\<open>pid = 0\<close>.
\<close>

definition eval :: "env \<Rightarrow> string \<Rightarrow> shell \<Rightarrow> stop + (int \<times> shell)" where
  "eval e cl s =
     (case parseline cl of
        Inl x \<Rightarrow> Inl x
      | Inr (bg_flag, argv) \<Rightarrow>
          (case builtin_cmd e argv (pid0 e) s of
             Inl x \<Rightarrow> Inl x
           | Inr (b, p, s') \<Rightarrow>
               if b then Inr (p, s')
               else if fork_ret e < 0 then Inl (Exited 1)
               else if fork_ret e = 0 \<and> exec_ok e then Inl Execed
               else
                 (let q = fork_ret e;
                      s1 = (if 0 < q then s\<lparr>forked := forked s @ [q]\<rparr> else s)
                  in case addjob q (if bg_flag then BG else FG) cl s1 of
                       Inl x \<Rightarrow> Inl x
                     | Inr (added, s2) \<Rightarrow>
                         if bg_flag then
                           (if MAXLINE + 10 \<le> length (job_msg (pid2jid (jobs s2) q) q cl)
                            then Inl (Crashed BufferOverflow)
                            else Inr (q, s2\<lparr>out := out s2 @
                                       [Written (job_msg (pid2jid (jobs s2) q) q cl)]\<rparr>))
                         else Inr (q, s2))))"

text \<open>The loop test of \<^verbatim>\<open>waitfg\<close>.\<close>

definition waitfg_test :: "int \<Rightarrow> shell \<Rightarrow> bool" where
  "waitfg_test p s = (pid2jid (jobs s) p \<noteq> 0 \<and> p = fgpid (jobs s))"

subsection \<open>Signal handlers\<close>

text \<open>
  The status a child is reaped with: \<^verbatim>\<open>WIFEXITED\<close>, \<^verbatim>\<open>WIFSIGNALED\<close> and \<^verbatim>\<open>WIFSTOPPED\<close>
  exclude one another, and each carries its exit code or signal number.
\<close>

datatype wstatus = WExited int | WSignaled int | WStopped int

text \<open>
  The two messages of the handler; with 32-bit numbers they have fewer than 80 characters
  and fit \<^verbatim>\<open>buf[1024]\<close>.
\<close>

definition signal_msg :: "string \<Rightarrow> int \<Rightarrow> int \<Rightarrow> int \<Rightarrow> string" where
  "signal_msg what i p n =
     ''Job ['' @ dec i @ ''] ('' @ dec p @ '') '' @ what @ '' by signal '' @ dec n @ [nl]"

text \<open>The body of the reaping loop, for one child \<open>p\<close> returned by \<^verbatim>\<open>waitpid\<close>.\<close>

definition reap :: "int \<Rightarrow> wstatus \<Rightarrow> shell \<Rightarrow> shell" where
  "reap p status s =
     (let i = pid2jid (jobs s) p;
          s1 = (case status of
                  WSignaled n \<Rightarrow> s\<lparr>out := out s @ [Written (signal_msg ''terminated'' i p n)]\<rparr>
                | WStopped n \<Rightarrow> s\<lparr>out := out s @ [Written (signal_msg ''stopped'' i p n)]\<rparr>
                | WExited _ \<Rightarrow> s)
      in case status of
           WStopped _ \<Rightarrow> s1
         | _ \<Rightarrow> snd (deletejob p s1))"

text \<open>
  The argument lists the successive results of \<^verbatim>\<open>waitpid(-1, &status, WNOHANG | WUNTRACED)\<close>;
  the loop ends at the first result that is not positive, or when nothing is left to reap.
\<close>

fun sigchld_handler :: "(int \<times> wstatus) list \<Rightarrow> shell \<Rightarrow> shell" where
  "sigchld_handler [] s = s"
| "sigchld_handler ((p, status) # rest) s =
     (if 0 < p then sigchld_handler rest (reap p status s) else s)"

text \<open>The flag of the next two handlers tells whether their call of \<^verbatim>\<open>kill\<close> succeeds.\<close>

definition sigint_handler :: "bool \<Rightarrow> shell \<Rightarrow> stop + shell" where
  "sigint_handler ok s =
     (if fgpid (jobs s) \<noteq> 0 \<and> \<not> ok then Inl (Exited 1) else Inr s)"

definition sigtstp_handler :: "bool \<Rightarrow> shell \<Rightarrow> stop + shell" where
  "sigtstp_handler ok s =
     (let p = fgpid (jobs s)
      in if p \<noteq> 0 then
           (if \<not> ok then Inl (Exited 1)
            else case getjobpid (jobs s) p of
                   None \<Rightarrow> Inl (Crashed NullDeref)
                 | Some k \<Rightarrow> Inr (s\<lparr>jobs := (jobs s)[k := (jobs s ! k)\<lparr>state := ST\<rparr>]\<rparr>))
         else Inr s)"

datatype signal = SIGCHLD "(int \<times> wstatus) list" | SIGINT bool | SIGTSTP bool | SIGQUIT

fun handler :: "signal \<Rightarrow> shell \<Rightarrow> stop + shell" where
  "handler (SIGCHLD reaped) s = Inr (sigchld_handler reaped s)"
| "handler (SIGINT ok) s = sigint_handler ok s"
| "handler (SIGTSTP ok) s = sigtstp_handler ok s"
| "handler SIGQUIT s = Inl (Exited 1)"

subsection \<open>The main loop and the handlers that interrupt it\<close>

text \<open>
  Where the main program stands: reading the next line at the prompt, or inside
  \<^verbatim>\<open>waitfg(pid)\<close> about to evaluate the loop test, between a test that held and the call
  of \<^verbatim>\<open>sigsuspend\<close>, or suspended in \<^verbatim>\<open>sigsuspend\<close>. \<^verbatim>\<open>eval\<close> restores the signal mask
  before it calls \<^verbatim>\<open>waitfg\<close>, and \<^verbatim>\<open>waitfg\<close> blocks no signal, so a handler can run at each
  of these places.
\<close>

datatype place = AtPrompt | WaitTest int | WaitEnter int | Suspended int

record sys =
  sh :: shell
  at :: place

text \<open>
  One step of the system: the main loop reads a line and evaluates it (the table accesses of
  \<^verbatim>\<open>eval\<close> and \<^verbatim>\<open>do_bgfg\<close> run with the signals blocked, so the step is atomic), the main
  program advances inside \<^verbatim>\<open>waitfg\<close>, or a signal is delivered and its handler runs.
  \<^verbatim>\<open>sigsuspend\<close> returns after a handler has run while the program was suspended; a handler
  that runs before \<^verbatim>\<open>sigsuspend\<close> is entered does not wake it. A line that arrives while
  the program is inside \<^verbatim>\<open>waitfg\<close> stays unread; at the end of the input the main loop
  calls \<^verbatim>\<open>exit(0)\<close>.
\<close>

datatype event = Line env string | Eof | Advance | Deliver signal

fun step :: "event \<Rightarrow> sys \<Rightarrow> stop + sys" where
  "step (Line e cl) c =
     (case at c of
        AtPrompt \<Rightarrow>
          (case eval e cl (sh c) of
             Inl x \<Rightarrow> Inl x
           | Inr (p, s') \<Rightarrow> Inr \<lparr>sh = s', at = WaitTest p\<rparr>)
      | _ \<Rightarrow> Inr c)"
| "step Eof c = (case at c of AtPrompt \<Rightarrow> Inl (Exited 0) | _ \<Rightarrow> Inr c)"
| "step Advance c =
     (case at c of
        WaitTest p \<Rightarrow> Inr (c\<lparr>at := (if waitfg_test p (sh c) then WaitEnter p else AtPrompt)\<rparr>)
      | WaitEnter p \<Rightarrow> Inr (c\<lparr>at := Suspended p\<rparr>)
      | _ \<Rightarrow> Inr c)"
| "step (Deliver g) c =
     (case handler g (sh c) of
        Inl x \<Rightarrow> Inl x
      | Inr s' \<Rightarrow> Inr \<lparr>sh = s', at = (case at c of Suspended p \<Rightarrow> WaitTest p | l \<Rightarrow> l)\<rparr>)"

fun run :: "event list \<Rightarrow> sys \<Rightarrow> stop + sys" where
  "run [] c = Inr c"
| "run (ev # evs) c = (case step ev c of Inl x \<Rightarrow> Inl x | Inr c' \<Rightarrow> run evs c')"

definition init_sys :: "bool \<Rightarrow> sys" where
  "init_sys v = \<lparr>sh = init_shell v, at = AtPrompt\<rparr>"

text \<open>
  The operating system never gives a new child the process id of a child that has not
  been reaped, and a job leaves the table only when its process is reaped: the positive
  values returned by \<^verbatim>\<open>fork\<close> are not in the table.
\<close>

fun os_ok :: "event \<Rightarrow> sys \<Rightarrow> bool" where
  "os_ok (Line e cl) c = (fork_ret e \<le> 0 \<or> fork_ret e \<notin> set (map pid (jobs (sh c))))"
| "os_ok ev c = True"

fun os_run :: "event list \<Rightarrow> sys \<Rightarrow> bool" where
  "os_run [] c = True"
| "os_run (ev # evs) c =
     (os_ok ev c \<and> (case step ev c of Inl x \<Rightarrow> True | Inr c' \<Rightarrow> os_run evs c'))"

subsection \<open>Sequences of job table operations\<close>

datatype jobop = Add int int string | Del int

text \<open>The state after an operation; the result of the operation is dropped.\<close>

fun apply_op :: "jobop \<Rightarrow> shell \<Rightarrow> stop + shell" where
  "apply_op (Add p st cl) s =
     (case addjob p st cl s of Inl x \<Rightarrow> Inl x | Inr (b, s') \<Rightarrow> Inr s')"
| "apply_op (Del p) s = Inr (snd (deletejob p s))"

fun run_ops :: "jobop list \<Rightarrow> shell \<Rightarrow> stop + shell" where
  "run_ops [] s = Inr s"
| "run_ops (x # ops) s = (case apply_op x s of Inl e \<Rightarrow> Inl e | Inr s' \<Rightarrow> run_ops ops s')"

subsection \<open>Properties of a job table\<close>

definition in_use :: "job_t \<Rightarrow> bool" where
  "in_use j = (pid j \<noteq> 0)"

definition used_jids :: "job_t list \<Rightarrow> int list" where
  "used_jids js = map jid (filter in_use js)"

definition used_pids :: "job_t list \<Rightarrow> int list" where
  "used_pids js = map pid (filter in_use js)"

text \<open>No two slots in use hold the same job id.\<close>

definition jids_distinct :: "job_t list \<Rightarrow> bool" where
  "jids_distinct js = distinct (used_jids js)"

text \<open>The counter is above every job id in use.\<close>

definition next_above :: "shell \<Rightarrow> bool" where
  "next_above s = list_all (\<lambda>i. i < nextjid s) (used_jids (jobs s))"

text \<open>The number of slots in use whose state is Foreground.\<close>

definition fg_count :: "job_t list \<Rightarrow> nat" where
  "fg_count js = length (filter (\<lambda>j. in_use j \<and> state j = FG) js)"

text \<open>A free slot has its job id and state reset.\<close>

definition free_cleared :: "job_t list \<Rightarrow> bool" where
  "free_cleared js = list_all (\<lambda>j. in_use j \<or> (jid j = 0 \<and> state j = UNDEF)) js"

text \<open>
  A slot in use has a positive process id and a job id that is not 0; every job id is a
  value of the type \<^verbatim>\<open>int\<close>.
\<close>

definition used_valid :: "job_t list \<Rightarrow> bool" where
  "used_valid js =
     list_all (\<lambda>j. (pid j = 0 \<or> (0 < pid j \<and> jid j \<noteq> 0)) \<and> INT_MIN \<le> jid j \<and> jid j \<le> INT_MAX) js"

definition table_ok :: "job_t list \<Rightarrow> bool" where
  "table_ok js = (free_cleared js \<and> used_valid js \<and> length js = MAXJOBS)"

text \<open>Every job id in the table, in use or not, is below \<^verbatim>\<open>INT_MAX\<close>.\<close>

definition jids_below_max :: "job_t list \<Rightarrow> bool" where
  "jids_below_max js = list_all (\<lambda>j. jid j < INT_MAX) js"

text \<open>
  The counter is positive, or it has overflowed at \<^verbatim>\<open>INT_MAX\<close> and has since been
  advanced once for each job added, which is no more often than there are jobs in the table.
\<close>

definition used_count :: "job_t list \<Rightarrow> nat" where
  "used_count js = length (filter in_use js)"

definition next_ok :: "shell \<Rightarrow> bool" where
  "next_ok s =
     ((1 \<le> nextjid s \<and> nextjid s \<le> INT_MAX)
      \<or> (INT_MIN \<le> nextjid s \<and> nextjid s \<le> INT_MIN + int (used_count (jobs s))))"

text \<open>No two slots in use hold the same process id.\<close>

definition pids_distinct :: "job_t list \<Rightarrow> bool" where
  "pids_distinct js = distinct (used_pids js)"

text \<open>The greatest job id in use, 0 for a table with no job.\<close>

definition max_used_jid :: "job_t list \<Rightarrow> int" where
  "max_used_jid js = Max (set (0 # used_jids js))"

subsection \<open>The invariant of the running system\<close>

text \<open>No slot is in state Foreground; every slot in state Foreground has process id \<open>p\<close>.\<close>

definition no_fg :: "job_t list \<Rightarrow> bool" where
  "no_fg js = list_all (\<lambda>j. state j \<noteq> FG) js"

definition fg_only :: "int \<Rightarrow> job_t list \<Rightarrow> bool" where
  "fg_only p js = list_all (\<lambda>j. state j \<noteq> FG \<or> pid j = p) js"

text \<open>
  At the prompt no job is in the foreground; inside \<^verbatim>\<open>waitfg(pid)\<close> only the job of
  \<^verbatim>\<open>pid\<close> can be.
\<close>

fun fg_at :: "place \<Rightarrow> job_t list \<Rightarrow> bool" where
  "fg_at AtPrompt js = no_fg js"
| "fg_at (WaitTest p) js = fg_only p js"
| "fg_at (WaitEnter p) js = fg_only p js"
| "fg_at (Suspended p) js = fg_only p js"

definition sys_ok :: "sys \<Rightarrow> bool" where
  "sys_ok c =
     (table_ok (jobs (sh c)) \<and> next_ok (sh c) \<and> fg_at (at c) (jobs (sh c))
      \<and> fg_count (jobs (sh c)) \<le> 1)"

subsection \<open>Tokens, in the words of the specification\<close>

text \<open>
  A second definition, taken from the words of the claim about \<^verbatim>\<open>parseline\<close> and not from
  the code: the tokens of a line are its maximal runs of characters that are not
  delimiters. \<open>split_on\<close> reads the line from left to right, \<open>cur\<close> being the token read
  so far. The request for a background job, as the claim words it: the line has no token,
  or the last token starts with an ampersand; the argument vector then is the tokens
  without that last one.
\<close>

primrec split_on :: "(char \<Rightarrow> bool) \<Rightarrow> string \<Rightarrow> string \<Rightarrow> string list" where
  "split_on d [] cur = (if cur = [] then [] else [cur])"
| "split_on d (c # cs) cur =
     (if d c then (if cur = [] then split_on d cs [] else cur # split_on d cs [])
      else split_on d cs (cur @ [c]))"

definition ws_tokens :: "string \<Rightarrow> string list" where
  "ws_tokens l = split_on isspace l []"

definition space_tokens :: "string \<Rightarrow> string list" where
  "space_tokens l = split_on (\<lambda>c. c = space) l []"

definition bg_requested :: "string list \<Rightarrow> bool" where
  "bg_requested ts = (ts = [] \<or> hd (last ts) = CHR ''&'')"

definition args_requested :: "string list \<Rightarrow> string list" where
  "args_requested ts = (if ts \<noteq> [] \<and> hd (last ts) = CHR ''&'' then butlast ts else ts)"

text \<open>
  A sequence of operations in which no \<^verbatim>\<open>addjob\<close> wraps the counter: every call that
  adds a job is made while \<^verbatim>\<open>nextjid < MAXJOBS\<close>.
\<close>

fun no_wrap :: "jobop list \<Rightarrow> shell \<Rightarrow> bool" where
  "no_wrap [] s = True"
| "no_wrap (Add p st cl # ops) s =
     (case addjob p st cl s of
        Inl x \<Rightarrow> True
      | Inr (b, s') \<Rightarrow> (\<not> b \<or> nextjid s < int MAXJOBS) \<and> no_wrap ops s')"
| "no_wrap (Del p # ops) s = no_wrap ops (snd (deletejob p s))"

text \<open>Fifteen jobs, the second one deleted, and two more jobs.\<close>

definition dup_ops :: "jobop list" where
  "dup_ops =
     [Add 1 BG ''a'', Add 2 BG ''a'', Add 3 BG ''a'', Add 4 BG ''a'', Add 5 BG ''a'',
      Add 6 BG ''a'', Add 7 BG ''a'', Add 8 BG ''a'', Add 9 BG ''a'', Add 10 BG ''a'',
      Add 11 BG ''a'', Add 12 BG ''a'', Add 13 BG ''a'', Add 14 BG ''a'', Add 15 BG ''a'',
      Del 2, Add 16 BG ''a'', Add 17 BG ''a'']"

text \<open>Sixteen jobs: the table is full.\<close>

definition fill_ops :: "jobop list" where
  "fill_ops =
     [Add 1 BG ''a'', Add 2 BG ''a'', Add 3 BG ''a'', Add 4 BG ''a'', Add 5 BG ''a'',
      Add 6 BG ''a'', Add 7 BG ''a'', Add 8 BG ''a'', Add 9 BG ''a'', Add 10 BG ''a'',
      Add 11 BG ''a'', Add 12 BG ''a'', Add 13 BG ''a'', Add 14 BG ''a'', Add 15 BG ''a'',
      Add 16 BG ''a'']"

definition few_ops :: "jobop list" where
  "few_ops = [Add 1 FG ''a'', Add 2 BG ''b'', Del 1, Add 3 BG ''c'']"

text \<open>The state after these four operations: the jobs 3 and 2, and the counter at 4.\<close>

definition few_shell :: shell where
  "few_shell = projr (run_ops few_ops (init_shell False))"

text \<open>A command line of \<^verbatim>\<open>MAXLINE\<close> characters.\<close>

definition long_line :: string where
  "long_line = replicate MAXLINE (CHR ''a'')"

text \<open>The initial table with the counter at \<^verbatim>\<open>INT_MAX\<close>.\<close>

definition last_id_shell :: shell where
  "last_id_shell = (init_shell False)\<lparr>nextjid := INT_MAX\<rparr>"

text \<open>
  Two tables with process 5 as job 3 in the first slot and the counter at 4. In the first
  one the second slot is free and holds the job id 9; in the second one the second slot
  holds process 6 as job \<^verbatim>\<open>INT_MAX\<close>.
\<close>

definition stale_shell :: shell where
  "stale_shell =
     (init_shell False)
       \<lparr>jobs := (jobs (init_shell False))
          [0 := \<lparr>pid = 5, jid = 3, state = BG, cmdline = ''a''\<rparr>,
           1 := \<lparr>pid = 0, jid = 9, state = UNDEF, cmdline = []\<rparr>],
        nextjid := 4\<rparr>"

definition max_id_shell :: shell where
  "max_id_shell =
     (init_shell False)
       \<lparr>jobs := (jobs (init_shell False))
          [0 := \<lparr>pid = 5, jid = 3, state = BG, cmdline = ''a''\<rparr>,
           1 := \<lparr>pid = 6, jid = INT_MAX, state = BG, cmdline = ''b''\<rparr>],
        nextjid := 4\<rparr>"

text \<open>
  A session: \<^verbatim>\<open>/bin/sleep 5 &\<close> is started as process 100, \<^verbatim>\<open>fg %1\<close> brings it to the
  foreground and the shell suspends; ctrl-z stops the job and the shell returns to the
  prompt.
\<close>

definition os0 :: env where
  "os0 = \<lparr>fork_ret = 100, exec_ok = True, kill_ok = True, pid0 = 0, jid0 = 0\<rparr>"

definition os1 :: env where
  "os1 = \<lparr>fork_ret = 101, exec_ok = True, kill_ok = True, pid0 = 0, jid0 = 0\<rparr>"

definition session :: "event list" where
  "session =
     [Line os0 ''/bin/sleep 5 &\<newline>'', Advance,
      Line os1 ''fg %1\<newline>'', Advance, Advance,
      Deliver (SIGTSTP True), Advance]"

text \<open>The state after \<^verbatim>\<open>/bin/sleep 5 &\<close> was started: job 1, process 100, in the background.\<close>

definition bg_shell :: shell where
  "bg_shell = sh (projr (run (take 2 session) (init_sys False)))"

text \<open>
  A foreground job whose process exits right after the loop test of \<^verbatim>\<open>waitfg\<close> has held:
  \<^verbatim>\<open>/bin/true\<close> is started as process 100, the test holds, the child is reaped by the
  handler before \<^verbatim>\<open>sigsuspend\<close> is entered, and the main program enters \<^verbatim>\<open>sigsuspend\<close>.
\<close>

definition race :: "event list" where
  "race =
     [Line os0 ''/bin/true\<newline>'', Advance,
      Deliver (SIGCHLD [(100, WExited 0)]), Advance]"

text \<open>
  Two runs in which a child is stopped by signal 19 (\<^verbatim>\<open>SIGSTOP\<close>) sent from outside the
  shell. In the first one \<^verbatim>\<open>/bin/sleep 5 &\<close> runs in the background as process 100, the
  handler reaps the stop, and \<^verbatim>\<open>jobs\<close> lists the table. In the second one
  \<^verbatim>\<open>/bin/sleep 5\<close> runs in the foreground, the shell is suspended in \<^verbatim>\<open>waitfg\<close>, the
  handler reaps the stop, and \<^verbatim>\<open>waitfg\<close> evaluates its loop test again.
\<close>

definition stopped_bg :: "event list" where
  "stopped_bg =
     [Line os0 ''/bin/sleep 5 &\<newline>'', Advance,
      Deliver (SIGCHLD [(100, WStopped 19)]),
      Line os1 ''jobs\<newline>'', Advance]"

definition stopped_fg :: "event list" where
  "stopped_fg =
     [Line os0 ''/bin/sleep 5\<newline>'', Advance, Advance,
      Deliver (SIGCHLD [(100, WStopped 19)]),
      Advance, Advance]"

text \<open>The line \<^verbatim>\<open>x '&'\<close>: its last argument is an ampersand in single quotes.\<close>

definition quoted_amp :: string where
  "quoted_amp = ''x '' @ [quote] @ ''&'' @ [quote, nl]"

section \<open>The job table\<close>

subsection \<open>Additions of C integers\<close>

lemma int32_id: "INT_MIN \<le> x \<Longrightarrow> x \<le> INT_MAX \<Longrightarrow> int32 x = x"
  by (simp add: int32_def INT_MIN_def INT_MAX_def)

lemma int32_range: "INT_MIN \<le> int32 x \<and> int32 x \<le> INT_MAX"
proof -
  have "0 \<le> (x + 2147483648) mod 4294967296" "(x + 2147483648) mod 4294967296 < 4294967296"
    by simp_all
  then show ?thesis by (simp add: int32_def INT_MIN_def INT_MAX_def)
qed

lemma int32_overflow: "int32 (INT_MAX + 1) = INT_MIN"
  by (simp add: int32_def INT_MIN_def INT_MAX_def)

lemma int32_ge: "x \<le> INT_MAX \<Longrightarrow> x \<le> int32 x"
proof (cases "INT_MIN \<le> x")
  case True
  assume "x \<le> INT_MAX"
  with True show ?thesis by (simp add: int32_id)
next
  case False
  with int32_range [of x] show ?thesis by simp
qed

subsection \<open>The scanning loops\<close>

lemma first_slot_None: "first_slot P js = None \<longleftrightarrow> (\<forall>j\<in>set js. \<not> P j)"
  by (induction js) auto

lemma first_slot_Some:
  "first_slot P js = Some i \<Longrightarrow> i < length js \<and> P (js ! i) \<and> (\<forall>k<i. \<not> P (js ! k))"
proof (induction js arbitrary: i)
  case Nil
  then show ?case by simp
next
  case (Cons j js)
  show ?case
  proof (cases "P j")
    case True
    with Cons.prems show ?thesis by simp
  next
    case False
    with Cons.prems obtain i' where i': "first_slot P js = Some i'" "i = Suc i'"
      by auto
    from Cons.IH [OF i'(1)] False i'(2) show ?thesis
      by (auto simp: nth_Cons split: nat.splits)
  qed
qed

lemma first_slot_exists: "\<exists>j\<in>set js. P j \<Longrightarrow> \<exists>i. first_slot P js = Some i"
  using first_slot_None [of P js] by (cases "first_slot P js") auto

lemma job_t_all_fields:
  "(j::job_t)\<lparr>pid := p, state := st, jid := i, cmdline := cl\<rparr> =
     \<lparr>pid = p, jid = i, state = st, cmdline = cl\<rparr>"
  by simp

lemma clearjob_eq: "clearjob (j::job_t) = \<lparr>pid = 0, jid = 0, state = UNDEF, cmdline = []\<rparr>"
  by (simp add: clearjob_def)

lemma init_shell_eval:
  "init_shell v =
     \<lparr>jobs = replicate 16 \<lparr>pid = 0, jid = 0, state = 0, cmdline = []\<rparr>,
      nextjid = 1, verbose = v, out = [], forked = []\<rparr>"
  by (simp add: init_shell_def initjobs_def clearjob_def)

lemma init_shell_jobs: "j \<in> set (jobs (init_shell v)) \<Longrightarrow> pid j = 0 \<and> jid j = 0 \<and> state j = 0"
  by (auto simp: init_shell_eval)

lemma maxjid_fold:
  "foldl (\<lambda>m j. if jid j > m then jid j else m) a js = fold max (map jid js) a"
proof (induction js arbitrary: a)
  case Nil
  then show ?case by simp
next
  case (Cons j js)
  have "(if a < jid j then jid j else a) = max (jid j) a" by (simp add: max_def)
  with Cons show ?case by simp
qed

lemma maxjid_Max: "maxjid js = Max (set (0 # map jid js))"
  unfolding maxjid_def maxjid_fold by (simp only: Max.set_eq_fold)

lemma maxjid_ge: "j \<in> set js \<Longrightarrow> jid j \<le> maxjid js"
  by (simp add: maxjid_Max)

lemma max_used_jid_eq:
  assumes "\<forall>j\<in>set js. pid j = 0 \<longrightarrow> jid j = 0"
  shows "max_used_jid js = maxjid js"
proof -
  have "insert 0 (jid ` set js) = insert 0 (jid ` {j \<in> set js. in_use j})"
  proof -
    have "\<And>j. j \<in> set js \<Longrightarrow> \<not> in_use j \<Longrightarrow> jid j = 0"
      using assms by (auto simp: in_use_def)
    then show ?thesis by (auto simp: image_iff)
  qed
  then show ?thesis
    by (simp add: max_used_jid_def maxjid_Max used_jids_def)
qed

lemma free_jid_clear:
  "\<forall>j\<in>set js. pid j = 0 \<longrightarrow> jid j = 0 \<Longrightarrow>
     \<forall>j\<in>set (js[i := clearjob x]). pid j = 0 \<longrightarrow> jid j = 0"
  by (auto simp: clearjob_def dest!: set_update_subset_insert [THEN subsetD])

text \<open>The ways \<^verbatim>\<open>addjob\<close> and \<^verbatim>\<open>deletejob\<close> can go.\<close>

lemma addjob_fails:
  "p < 1 \<or> first_slot (\<lambda>j. pid j = 0) (jobs s) = None \<Longrightarrow>
     \<exists>s'. addjob p st cl s = Inr (False, s') \<and> jobs s' = jobs s \<and> nextjid s' = nextjid s
       \<and> forked s' = forked s"
  by (auto simp: addjob_def)

lemma addjob_overflows:
  "\<not> p < 1 \<Longrightarrow> first_slot (\<lambda>j. pid j = 0) (jobs s) = Some i \<Longrightarrow> MAXLINE \<le> length cl \<Longrightarrow>
     addjob p st cl s = Inl (Crashed BufferOverflow)"
  by (simp add: addjob_def Let_def)

lemma addjob_adds:
  "\<not> p < 1 \<Longrightarrow> first_slot (\<lambda>j. pid j = 0) (jobs s) = Some i \<Longrightarrow> length cl < MAXLINE \<Longrightarrow>
     \<exists>s'. addjob p st cl s = Inr (True, s')
       \<and> jobs s' = (jobs s)[i := \<lparr>pid = p, jid = nextjid s, state = st, cmdline = cl\<rparr>]
       \<and> nextjid s' =
           (if int MAXJOBS < int32 (nextjid s + 1) then 1 else int32 (nextjid s + 1))
       \<and> forked s' = forked s"
  by (simp add: addjob_def Let_def job_t_all_fields)

lemma addjob_cases:
  assumes "addjob p st cl s = Inr (b, s')"
  obtains (fail) "\<not> b" and "p < 1 \<or> first_slot (\<lambda>j. pid j = 0) (jobs s) = None"
      and "jobs s' = jobs s" and "nextjid s' = nextjid s" and "forked s' = forked s"
    | (add) i where "b" and "0 < p" and "first_slot (\<lambda>j. pid j = 0) (jobs s) = Some i"
      and "length cl < MAXLINE"
      and "jobs s' = (jobs s)[i := \<lparr>pid = p, jid = nextjid s, state = st, cmdline = cl\<rparr>]"
      and "nextjid s' =
             (if int MAXJOBS < int32 (nextjid s + 1) then 1 else int32 (nextjid s + 1))"
      and "forked s' = forked s"
proof (cases "p < 1 \<or> first_slot (\<lambda>j. pid j = 0) (jobs s) = None")
  case True
  from addjob_fails [OF True, of st cl] assms fail True show ?thesis by auto
next
  case False
  then obtain i where i: "\<not> p < 1" "first_slot (\<lambda>j. pid j = 0) (jobs s) = Some i"
    by auto
  show ?thesis
  proof (cases "length cl < MAXLINE")
    case True
    from addjob_adds [OF i True, of st] assms add [of i] i True show ?thesis by auto
  next
    case False
    then have "MAXLINE \<le> length cl" by simp
    from addjob_overflows [OF i this, of st] assms show ?thesis by simp
  qed
qed

lemma deletejob_fails:
  "p < 1 \<or> first_slot (\<lambda>j. pid j = p) (jobs s) = None \<Longrightarrow> deletejob p s = (False, s)"
  by (auto simp: deletejob_def)

lemma deletejob_deletes:
  "\<not> p < 1 \<Longrightarrow> first_slot (\<lambda>j. pid j = p) (jobs s) = Some i \<Longrightarrow>
     deletejob p s =
       (True, s\<lparr>jobs := (jobs s)[i := clearjob (jobs s ! i)],
                nextjid := int32 (maxjid ((jobs s)[i := clearjob (jobs s ! i)]) + 1)\<rparr>)"
  by (simp add: deletejob_def Let_def)

lemma maxjid_nonneg: "0 \<le> maxjid js"
  by (simp add: maxjid_Max)

lemma maxjid_below:
  assumes "\<forall>j\<in>set js. jid j < b" and "0 < b"
  shows "maxjid js < b"
  using assms by (simp add: maxjid_Max)

subsection \<open>Distinct fields of the slots in use\<close>

lemma set_used_update:
  "set (map f (filter in_use (js[i := j]))) \<subseteq> insert (f j) (set (map f (filter in_use js)))"
  using set_update_subset_insert [of js i j] by auto

lemma distinct_fill:
  "distinct (map f (filter in_use js)) \<Longrightarrow> \<not> in_use (js ! i) \<Longrightarrow>
     f j \<notin> set (map f (filter in_use js)) \<Longrightarrow>
     distinct (map f (filter in_use (js[i := j])))"
proof (induction js arbitrary: i)
  case Nil
  then show ?case by simp
next
  case (Cons a js)
  show ?case
  proof (cases i)
    case 0
    with Cons.prems show ?thesis by auto
  next
    case (Suc k)
    from Cons.prems Suc have d: "distinct (map f (filter in_use js))" "\<not> in_use (js ! k)"
      "f j \<notin> set (map f (filter in_use js))"
      by (auto split: if_splits)
    note ih = Cons.IH [OF d]
    show ?thesis
    proof (cases "in_use a")
      case True
      with Cons.prems have "f a \<noteq> f j" "f a \<notin> set (map f (filter in_use js))"
        by auto
      with set_used_update [of f js k j] have "f a \<notin> set (map f (filter in_use (js[k := j])))"
        by auto
      with ih True Suc show ?thesis by simp
    next
      case False
      with ih Suc show ?thesis by simp
    qed
  qed
qed

lemma distinct_clear:
  "distinct (map f (filter in_use js)) \<Longrightarrow> \<not> in_use j \<Longrightarrow>
     distinct (map f (filter in_use (js[i := j])))"
proof (induction js arbitrary: i)
  case Nil
  then show ?case by simp
next
  case (Cons a js)
  show ?case
  proof (cases i)
    case 0
    with Cons.prems show ?thesis by (auto split: if_splits)
  next
    case (Suc k)
    from Cons.prems have d: "distinct (map f (filter in_use js))"
      by (auto split: if_splits)
    have sub: "set (map f (filter in_use (js[k := j]))) \<subseteq> set (map f (filter in_use js))"
      using set_update_subset_insert [of js k j] Cons.prems(2) by auto
    from Cons.IH [OF d Cons.prems(2), of k] Cons.prems sub Suc show ?thesis
      by (auto split: if_splits)
  qed
qed

subsection \<open>addjob\<close>

text \<open>
  C5, as the code has it. For a command line of fewer than \<^verbatim>\<open>MAXLINE\<close> characters, in a
  state whose counter is an \<^verbatim>\<open>int\<close> below \<^verbatim>\<open>INT_MAX\<close>,
  \<^verbatim>\<open>addjob(pid, state, cmdline)\<close> returns false exactly when \<open>pid \<le> 0\<close> or no slot has
  \<open>pid = 0\<close>, and then leaves every entry (and the counter) as it was. Otherwise it returns
  true, takes the free slot of lowest index, stores the process id, the state and the
  command line there with the current \<^verbatim>\<open>nextjid\<close> as job id, and advances \<^verbatim>\<open>nextjid\<close>
  by one, back to 1 when it would exceed \<^verbatim>\<open>MAXJOBS\<close>.
\<close>

theorem addjob_spec:
  assumes "length cl < MAXLINE" and "INT_MIN \<le> nextjid s" and "nextjid s < INT_MAX"
  shows "\<exists>b s'. addjob p st cl s = Inr (b, s')
    \<and> (\<not> b \<longleftrightarrow> p \<le> 0 \<or> (\<forall>j\<in>set (jobs s). pid j \<noteq> 0))
    \<and> (\<not> b \<longrightarrow> jobs s' = jobs s \<and> nextjid s' = nextjid s)
    \<and> (b \<longrightarrow>
         (\<exists>i<length (jobs s). pid (jobs s ! i) = 0 \<and> (\<forall>k<i. pid (jobs s ! k) \<noteq> 0)
           \<and> jobs s' = (jobs s)[i := \<lparr>pid = p, jid = nextjid s, state = st, cmdline = cl\<rparr>]
           \<and> nextjid s' = (if int MAXJOBS < nextjid s + 1 then 1 else nextjid s + 1)))"
proof (cases "p < 1 \<or> first_slot (\<lambda>j. pid j = 0) (jobs s) = None")
  case True
  from addjob_fails [OF True, of st cl] obtain s' where "addjob p st cl s = Inr (False, s')"
    "jobs s' = jobs s" "nextjid s' = nextjid s"
    by blast
  moreover from True have "p \<le> 0 \<or> (\<forall>j\<in>set (jobs s). pid j \<noteq> 0)"
    using first_slot_None [of "\<lambda>j. pid j = 0" "jobs s"] by auto
  ultimately show ?thesis by (intro exI [of _ False] exI [of _ s']) simp
next
  case False
  then obtain i where i: "\<not> p < 1" "first_slot (\<lambda>j. pid j = 0) (jobs s) = Some i"
    by auto
  from first_slot_Some [OF i(2)]
  have k: "i < length (jobs s)" "pid (jobs s ! i) = 0" "\<forall>k<i. pid (jobs s ! k) \<noteq> 0"
    by auto
  from k(1,2) have ex: "\<exists>j\<in>set (jobs s). pid j = 0"
    using nth_mem by blast
  from assms(2,3) have "int32 (nextjid s + 1) = nextjid s + 1"
    by (intro int32_id) simp_all
  with addjob_adds [OF i assms(1), of st] obtain s' where "addjob p st cl s = Inr (True, s')"
    "jobs s' = (jobs s)[i := \<lparr>pid = p, jid = nextjid s, state = st, cmdline = cl\<rparr>]"
    "nextjid s' = (if int MAXJOBS < nextjid s + 1 then 1 else nextjid s + 1)"
    by auto
  with i(1) ex k show ?thesis by (intro exI [of _ True] exI [of _ s']) auto
qed

theorem addjob_spec_witness:
  "length ''ls'' < MAXLINE \<and> INT_MIN \<le> nextjid (init_shell False)
   \<and> nextjid (init_shell False) < INT_MAX
   \<and> (\<exists>s'. addjob 7 BG ''ls'' (init_shell False) = Inr (True, s')
         \<and> jobs s' =
             (jobs (init_shell False))[0 := \<lparr>pid = 7, jid = 1, state = BG, cmdline = ''ls''\<rparr>]
         \<and> nextjid s' = 2)
   \<and> (\<exists>s'. addjob 0 BG ''ls'' (init_shell False) = Inr (False, s')
         \<and> jobs s' = jobs (init_shell False))"
proof -
  have h: "length ''ls'' < MAXLINE" "INT_MIN \<le> nextjid (init_shell False)"
    "nextjid (init_shell False) < INT_MAX"
    by (simp_all add: init_shell_eval INT_MIN_def INT_MAX_def)
  have n: "nextjid (init_shell False) = 1" "pid (jobs (init_shell False) ! 0) = 0"
    "jobs (init_shell False) ! 0 \<in> set (jobs (init_shell False))"
    by (simp_all add: init_shell_eval)
  from addjob_spec [OF h, of 7 BG] obtain b s' where
    r: "addjob 7 BG ''ls'' (init_shell False) = Inr (b, s')"
    and b: "\<not> b \<longleftrightarrow> (7::int) \<le> 0 \<or> (\<forall>j\<in>set (jobs (init_shell False)). pid j \<noteq> 0)"
    and a: "b \<longrightarrow> (\<exists>i<length (jobs (init_shell False)).
          pid (jobs (init_shell False) ! i) = 0
          \<and> (\<forall>k<i. pid (jobs (init_shell False) ! k) \<noteq> 0)
          \<and> jobs s' = (jobs (init_shell False))
               [i := \<lparr>pid = 7, jid = nextjid (init_shell False), state = BG, cmdline = ''ls''\<rparr>]
          \<and> nextjid s' = (if int MAXJOBS < nextjid (init_shell False) + 1 then 1
                          else nextjid (init_shell False) + 1))"
    by blast
  from b n have bt: "b" by auto
  with a obtain i where i: "\<forall>k<i. pid (jobs (init_shell False) ! k) \<noteq> 0"
    "jobs s' = (jobs (init_shell False))
       [i := \<lparr>pid = 7, jid = nextjid (init_shell False), state = BG, cmdline = ''ls''\<rparr>]"
    "nextjid s' = (if int MAXJOBS < nextjid (init_shell False) + 1 then 1
                   else nextjid (init_shell False) + 1)"
    by blast
  from i(1) n(2) have "i = 0" by (cases i) auto
  with i n bt r have 1: "\<exists>s'. addjob 7 BG ''ls'' (init_shell False) = Inr (True, s')
         \<and> jobs s' =
             (jobs (init_shell False))[0 := \<lparr>pid = 7, jid = 1, state = BG, cmdline = ''ls''\<rparr>]
         \<and> nextjid s' = 2"
    by simp
  from addjob_spec [OF h, of 0 BG] have 2: "\<exists>s'. addjob 0 BG ''ls'' (init_shell False) = Inr (False, s')
         \<and> jobs s' = jobs (init_shell False)"
    by auto
  from h 1 2 show ?thesis by blast
qed

text \<open>
  C5, as stated, fails. With a command line of \<^verbatim>\<open>MAXLINE\<close> characters, a process id
  above 0 and a free slot, \<^verbatim>\<open>addjob\<close> does not return true with the command line stored:
  \<^verbatim>\<open>strcpy\<close> writes past the end of the slot's \<^verbatim>\<open>cmdline\<close>. And with the counter at
  \<^verbatim>\<open>INT_MAX\<close>, \<^verbatim>\<open>addjob\<close> returns true and leaves the counter at \<^verbatim>\<open>INT_MIN\<close>, which
  is neither one more than before nor 1.
\<close>

theorem addjob_beyond_its_bounds:
  "length long_line = MAXLINE
   \<and> addjob 7 BG long_line (init_shell False) = Inl (Crashed BufferOverflow)
   \<and> nextjid last_id_shell = INT_MAX
   \<and> (case addjob 7 BG ''ls'' last_id_shell of
        Inr (b, s') \<Rightarrow> b \<and> nextjid s' = INT_MIN \<and> nextjid s' \<noteq> 1
      | Inl x \<Rightarrow> False)"
  by code_simp

subsection \<open>deletejob\<close>

lemma ball_update: "\<forall>j\<in>set js. P j \<Longrightarrow> P x \<Longrightarrow> \<forall>j\<in>set (js[i := x]). P j"
  using set_update_subset_insert [of js i x] by auto

text \<open>
  C6, as the code has it. In a table whose free slots hold job id 0 and whose job ids are
  below \<^verbatim>\<open>INT_MAX\<close>, \<^verbatim>\<open>deletejob(pid)\<close> returns false and leaves the table and
  \<^verbatim>\<open>nextjid\<close> as they were when \<open>pid \<le> 0\<close> or no slot has that process id. Otherwise it
  returns true, resets the first slot with that process id (process id 0, job id 0, state
  \<^verbatim>\<open>UNDEF\<close>, empty command line) and sets \<^verbatim>\<open>nextjid\<close> to one more than the greatest job
  id still in use, which is 1 when no job is left.
\<close>

theorem deletejob_spec:
  "\<forall>j\<in>set (jobs s). (pid j = 0 \<longrightarrow> jid j = 0) \<and> jid j < INT_MAX \<Longrightarrow>
     (p \<le> 0 \<or> (\<forall>j\<in>set (jobs s). pid j \<noteq> p) \<longrightarrow> deletejob p s = (False, s))
   \<and> (0 < p \<and> (\<exists>j\<in>set (jobs s). pid j = p) \<longrightarrow>
        (\<exists>i<length (jobs s). pid (jobs s ! i) = p \<and> (\<forall>k<i. pid (jobs s ! k) \<noteq> p)
          \<and> deletejob p s =
              (True, s\<lparr>jobs := (jobs s)[i := \<lparr>pid = 0, jid = 0, state = UNDEF, cmdline = []\<rparr>],
                       nextjid :=
                         max_used_jid ((jobs s)[i := \<lparr>pid = 0, jid = 0, state = UNDEF, cmdline = []\<rparr>]) + 1\<rparr>)))"
proof (intro conjI impI)
  assume "p \<le> 0 \<or> (\<forall>j\<in>set (jobs s). pid j \<noteq> p)"
  then show "deletejob p s = (False, s)"
    using first_slot_None [of "\<lambda>j. pid j = p" "jobs s"]
    by (auto simp: deletejob_def)
next
  assume fc: "\<forall>j\<in>set (jobs s). (pid j = 0 \<longrightarrow> jid j = 0) \<and> jid j < INT_MAX"
    and h: "0 < p \<and> (\<exists>j\<in>set (jobs s). pid j = p)"
  then obtain i where Some: "first_slot (\<lambda>j. pid j = p) (jobs s) = Some i"
    using first_slot_exists [of "jobs s" "\<lambda>j. pid j = p"] by blast
  from first_slot_Some [OF Some]
  have i: "i < length (jobs s)" "pid (jobs s ! i) = p" "\<forall>k<i. pid (jobs s ! k) \<noteq> p"
    by auto
  let ?js = "(jobs s)[i := clearjob (jobs s ! i)]"
  have c: "\<forall>j\<in>set ?js. (pid j = 0 \<longrightarrow> jid j = 0) \<and> jid j < INT_MAX"
    using fc by (rule ball_update) (simp add: clearjob_def INT_MAX_def)
  then have m: "maxjid ?js = max_used_jid ?js" by (simp add: max_used_jid_eq)
  from c have "maxjid ?js < INT_MAX" by (intro maxjid_below) (simp_all add: INT_MAX_def)
  with maxjid_nonneg [of ?js] have "int32 (maxjid ?js + 1) = maxjid ?js + 1"
    by (intro int32_id) (simp_all add: INT_MIN_def)
  with m have "deletejob p s = (True, s\<lparr>jobs := ?js, nextjid := max_used_jid ?js + 1\<rparr>)"
    using h Some by (simp add: deletejob_def Let_def)
  with i show "\<exists>i<length (jobs s). pid (jobs s ! i) = p \<and> (\<forall>k<i. pid (jobs s ! k) \<noteq> p)
          \<and> deletejob p s =
              (True, s\<lparr>jobs := (jobs s)[i := \<lparr>pid = 0, jid = 0, state = UNDEF, cmdline = []\<rparr>],
                       nextjid :=
                         max_used_jid ((jobs s)[i := \<lparr>pid = 0, jid = 0, state = UNDEF, cmdline = []\<rparr>]) + 1\<rparr>)"
    by (auto simp: clearjob_eq)
qed

theorem deletejob_spec_witness:
  "run_ops few_ops (init_shell False) = Inr few_shell
   \<and> free_cleared (jobs few_shell) \<and> jids_below_max (jobs few_shell)
   \<and> deletejob 9 few_shell = (False, few_shell)
   \<and> fst (deletejob 3 few_shell)
   \<and> nextjid (snd (deletejob 3 few_shell)) = 3
   \<and> nextjid (snd (deletejob 2 (snd (deletejob 3 few_shell)))) = 1"
proof -
  have a: "\<forall>j\<in>set (jobs few_shell). (pid j = 0 \<longrightarrow> jid j = 0) \<and> jid j < INT_MAX"
    by code_simp
  have b: "\<forall>j\<in>set (jobs few_shell). pid j \<noteq> 9"
    by code_simp
  have c: "run_ops few_ops (init_shell False) = Inr few_shell"
    "free_cleared (jobs few_shell)" "jids_below_max (jobs few_shell)"
    "fst (deletejob 3 few_shell)"
    "nextjid (snd (deletejob 3 few_shell)) = 3"
    "nextjid (snd (deletejob 2 (snd (deletejob 3 few_shell)))) = 1"
    by code_simp+
  from deletejob_spec [OF a, of 9] b c show ?thesis by simp
qed

text \<open>
  C6, as stated, fails. In a table where a free slot holds the job id 9, deleting the only
  job sets \<^verbatim>\<open>nextjid\<close> to 10, although no job id is in use any more. And in a table where
  a job has the id \<^verbatim>\<open>INT_MAX\<close>, deleting another job sets \<^verbatim>\<open>nextjid\<close> to \<^verbatim>\<open>INT_MIN\<close>.
\<close>

theorem deletejob_next_id_not_max_plus_one:
  "(case deletejob 5 stale_shell of
      (b, s') \<Rightarrow> b \<and> used_jids (jobs s') = [] \<and> max_used_jid (jobs s') + 1 = 1
                 \<and> nextjid s' = 10)
   \<and> (case deletejob 5 max_id_shell of
      (b, s') \<Rightarrow> b \<and> used_jids (jobs s') = [INT_MAX] \<and> max_used_jid (jobs s') = INT_MAX
                 \<and> nextjid s' = INT_MIN)"
  by code_simp

subsection \<open>The allocation counter\<close>

lemma used_jids_update:
  "set (used_jids (js[i := j])) \<subseteq> insert (jid j) (set (used_jids js))"
  using set_update_subset_insert [of js i j] by (auto simp: used_jids_def)

lemma jids_below_max_update:
  "jids_below_max js \<Longrightarrow> jid j < INT_MAX \<Longrightarrow> jids_below_max (js[i := j])"
  using set_update_subset_insert [of js i j] by (auto simp: jids_below_max_def list_all_iff)

text \<open>An \<^verbatim>\<open>addjob\<close> that is called with the counter below \<^verbatim>\<open>MAXJOBS\<close> raises it.\<close>

lemma counter_advances:
  assumes "n < int MAXJOBS"
  shows "n < (if int MAXJOBS < int32 (n + 1) then 1 else int32 (n + 1))"
proof (cases "INT_MIN \<le> n + 1")
  case True
  with assms have "int32 (n + 1) = n + 1"
    by (intro int32_id) (simp_all add: INT_MAX_def)
  with assms show ?thesis by simp
next
  case False
  then have "n < 0" by (simp add: INT_MIN_def)
  moreover from assms have "n + 1 \<le> int32 (n + 1)"
    by (intro int32_ge) (simp add: INT_MAX_def)
  ultimately show ?thesis by simp
qed

lemma next_above_addjob:
  assumes na: "next_above s" and jb: "jids_below_max (jobs s)"
    and r: "addjob p st cl s = Inr (b, s')" and nw: "\<not> b \<or> nextjid s < int MAXJOBS"
  shows "next_above s' \<and> jids_below_max (jobs s')"
  using r
proof (cases rule: addjob_cases)
  case fail
  with na jb show ?thesis by (simp add: next_above_def)
next
  case (add i)
  with nw have n: "nextjid s < int MAXJOBS" by simp
  from counter_advances [OF n] add(6) have lt: "nextjid s < nextjid s'" by simp
  have "\<And>x. x \<in> set (used_jids (jobs s')) \<Longrightarrow> x < nextjid s'"
  proof -
    fix x
    assume "x \<in> set (used_jids (jobs s'))"
    with add(5) used_jids_update [of "jobs s" i "\<lparr>pid = p, jid = nextjid s, state = st, cmdline = cl\<rparr>"]
    have "x = nextjid s \<or> x \<in> set (used_jids (jobs s))" by auto
    with na lt show "x < nextjid s'"
      by (auto simp: next_above_def list_all_iff)
  qed
  moreover from n have "nextjid s < INT_MAX" by (simp add: INT_MAX_def)
  with jb add(5) have "jids_below_max (jobs s')" by (simp add: jids_below_max_update)
  ultimately show ?thesis by (simp add: next_above_def list_all_iff)
qed

lemma jids_below_max_deletejob:
  "jids_below_max (jobs s) \<Longrightarrow> jids_below_max (jobs (snd (deletejob p s)))"
  by (simp add: deletejob_def Let_def jids_below_max_update clearjob_def INT_MAX_def
      split: option.splits)

lemma next_above_deletejob_ok:
  assumes "fst (deletejob p s)" and jb: "jids_below_max (jobs s)"
  shows "next_above (snd (deletejob p s))"
proof (cases "p < 1 \<or> first_slot (\<lambda>j. pid j = p) (jobs s) = None")
  case True
  from deletejob_fails [OF True] assms show ?thesis by simp
next
  case False
  then obtain i where i: "\<not> p < 1" "first_slot (\<lambda>j. pid j = p) (jobs s) = Some i"
    by auto
  let ?js = "(jobs s)[i := clearjob (jobs s ! i)]"
  from jb have "jids_below_max ?js"
    by (simp add: jids_below_max_update clearjob_def INT_MAX_def)
  then have "maxjid ?js < INT_MAX"
    by (intro maxjid_below) (simp_all add: jids_below_max_def list_all_iff INT_MAX_def)
  with maxjid_nonneg [of ?js] have e: "int32 (maxjid ?js + 1) = maxjid ?js + 1"
    by (intro int32_id) (simp_all add: INT_MIN_def)
  have "\<And>x. x \<in> set (used_jids ?js) \<Longrightarrow> x < maxjid ?js + 1"
    using maxjid_ge [of _ ?js] by (fastforce simp: used_jids_def)
  with e show ?thesis
    by (simp add: deletejob_deletes [OF i] next_above_def list_all_iff)
qed

lemma next_above_deletejob:
  assumes "next_above s" and jb: "jids_below_max (jobs s)"
  shows "next_above (snd (deletejob p s))"
proof (cases "p < 1 \<or> first_slot (\<lambda>j. pid j = p) (jobs s) = None")
  case True
  with deletejob_fails [OF True] assms show ?thesis by simp
next
  case False
  then obtain i where i: "\<not> p < 1" "first_slot (\<lambda>j. pid j = p) (jobs s) = Some i"
    by auto
  have "fst (deletejob p s)" by (simp add: deletejob_deletes [OF i])
  then show ?thesis using jb by (rule next_above_deletejob_ok)
qed

lemma next_above_run_ops:
  "next_above s \<Longrightarrow> jids_below_max (jobs s) \<Longrightarrow> no_wrap ops s \<Longrightarrow> run_ops ops s = Inr s' \<Longrightarrow>
     next_above s'"
proof (induction ops arbitrary: s)
  case Nil
  then show ?case by simp
next
  case (Cons a ops)
  show ?case
  proof (cases a)
    case (Add p st cl)
    with Cons.prems(4) obtain b s1 where r: "addjob p st cl s = Inr (b, s1)"
      and t: "run_ops ops s1 = Inr s'"
      by (auto split: sum.splits)
    from Cons.prems(3) Add r have nw: "\<not> b \<or> nextjid s < int MAXJOBS" "no_wrap ops s1"
      by simp_all
    from next_above_addjob [OF Cons.prems(1,2) r nw(1)]
    have "next_above s1" "jids_below_max (jobs s1)" by simp_all
    from Cons.IH [OF this nw(2) t] show ?thesis .
  next
    case (Del p)
    with Cons.prems have "next_above (snd (deletejob p s))"
      "jids_below_max (jobs (snd (deletejob p s)))" "no_wrap ops (snd (deletejob p s))"
      "run_ops ops (snd (deletejob p s)) = Inr s'"
      by (auto intro: next_above_deletejob jids_below_max_deletejob)
    from Cons.IH [OF this] show ?thesis .
  qed
qed

lemma no_wrap_take: "no_wrap ops s \<Longrightarrow> no_wrap (take n ops) s"
proof (induction ops s arbitrary: n rule: no_wrap.induct)
  case (1 s)
  then show ?case by simp
next
  case (2 p st cl ops s)
  then show ?case by (cases n) (auto split: sum.splits)
next
  case (3 p ops s)
  then show ?case by (cases n) auto
qed

lemma next_above_init: "next_above (init_shell v) \<and> jids_below_max (jobs (init_shell v))"
  by (simp add: init_shell_eval next_above_def used_jids_def in_use_def jids_below_max_def
      INT_MAX_def list_all_iff)

text \<open>
  C2, as the code has it. After each completed operation of a sequence of \<^verbatim>\<open>addjob\<close> and
  \<^verbatim>\<open>deletejob\<close> operations from the initial table in which no \<^verbatim>\<open>addjob\<close> wraps the
  counter, \<^verbatim>\<open>nextjid\<close> is above every job id in use. The same holds for such a sequence
  from any table in which \<^verbatim>\<open>nextjid\<close> is above every job id in use and every job id is
  below \<^verbatim>\<open>INT_MAX\<close>. And a \<^verbatim>\<open>deletejob\<close> that deletes a job from a table whose job ids
  are below \<^verbatim>\<open>INT_MAX\<close> leaves \<^verbatim>\<open>nextjid\<close> above every job id in use, whatever the
  counter was before.
\<close>

theorem next_above_unless_wrapped:
  "(no_wrap ops (init_shell v) \<longrightarrow>
      (\<forall>n\<le>length ops. \<forall>s'. run_ops (take n ops) (init_shell v) = Inr s' \<longrightarrow> next_above s'))
   \<and> (next_above s \<and> jids_below_max (jobs s) \<and> no_wrap ops s \<longrightarrow>
        (\<forall>n\<le>length ops. \<forall>s'. run_ops (take n ops) s = Inr s' \<longrightarrow> next_above s'))
   \<and> (fst (deletejob p s) \<and> jids_below_max (jobs s) \<longrightarrow> next_above (snd (deletejob p s)))"
proof (intro conjI impI allI)
  fix n s'
  assume "no_wrap ops (init_shell v)" and "run_ops (take n ops) (init_shell v) = Inr s'"
  with next_above_init [of v] no_wrap_take [of ops "init_shell v" n] show "next_above s'"
    by (blast intro: next_above_run_ops)
next
  fix n s'
  assume "next_above s \<and> jids_below_max (jobs s) \<and> no_wrap ops s"
    and "run_ops (take n ops) s = Inr s'"
  with no_wrap_take [of ops s n] show "next_above s'"
    by (blast intro: next_above_run_ops)
next
  assume "fst (deletejob p s) \<and> jids_below_max (jobs s)"
  then show "next_above (snd (deletejob p s))"
    by (blast intro: next_above_deletejob_ok)
qed

theorem next_above_unless_wrapped_witness:
  "no_wrap few_ops (init_shell False)
   \<and> run_ops few_ops (init_shell False) = Inr few_shell
   \<and> next_above few_shell \<and> nextjid few_shell = 4
   \<and> used_jids (jobs few_shell) = [3, 2]
   \<and> jids_below_max (jobs few_shell)
   \<and> fst (deletejob 2 few_shell)
   \<and> next_above (snd (deletejob 2 few_shell))"
proof -
  have a: "no_wrap few_ops (init_shell False)" by code_simp
  have b: "run_ops few_ops (init_shell False) = Inr few_shell" "nextjid few_shell = 4"
    "used_jids (jobs few_shell) = [3, 2]"
    by code_simp+
  have c: "take (length few_ops) few_ops = few_ops" by simp
  have d: "fst (deletejob 2 few_shell)" "jids_below_max (jobs few_shell)" by code_simp+
  note t = next_above_unless_wrapped [of few_ops False few_shell 2]
  from t a have "\<forall>n\<le>length few_ops. \<forall>s'.
      run_ops (take n few_ops) (init_shell False) = Inr s' \<longrightarrow> next_above s'"
    by blast
  then have "run_ops (take (length few_ops) few_ops) (init_shell False) = Inr few_shell
      \<longrightarrow> next_above few_shell"
    by blast
  with b c have e: "next_above few_shell" by simp
  from t d have "next_above (snd (deletejob 2 few_shell))"
    by blast
  with a b d e show ?thesis by simp
qed

text \<open>
  C2, as stated, fails: after sixteen \<^verbatim>\<open>addjob\<close> calls from the initial table the counter
  has wrapped to 1, while the job ids 1 to 16 are in use.
\<close>

theorem nextjid_wraps_below_used_ids:
  "(case run_ops fill_ops (init_shell False) of
      Inr s \<Rightarrow> nextjid s = 1
                \<and> used_jids (jobs s) = [1, 2, 3, 4, 5, 6, 7, 8, 9, 10, 11, 12, 13, 14, 15, 16]
                \<and> \<not> next_above s
    | Inl x \<Rightarrow> False)"
  by code_simp

subsection \<open>Job ids in use\<close>

text \<open>
  As long as no \<^verbatim>\<open>addjob\<close> wraps the counter, the job ids in use are distinct: a new job
  gets the value of the counter, which is above every id in use.
\<close>

lemma jids_distinct_addjob:
  assumes na: "next_above s" and d: "jids_distinct (jobs s)"
    and r: "addjob p st cl s = Inr (b, s')"
  shows "jids_distinct (jobs s')"
  using r
proof (cases rule: addjob_cases)
  case fail
  with d show ?thesis by simp
next
  case (add i)
  from first_slot_Some [OF add(3)] have f: "\<not> in_use (jobs s ! i)" by (simp add: in_use_def)
  from na have "nextjid s \<notin> set (map jid (filter in_use (jobs s)))"
    by (auto simp: next_above_def used_jids_def list_all_iff)
  with d f have "distinct (map jid (filter in_use
      ((jobs s)[i := \<lparr>pid = p, jid = nextjid s, state = st, cmdline = cl\<rparr>])))"
    unfolding jids_distinct_def used_jids_def by (intro distinct_fill) simp_all
  with add(5) show ?thesis
    by (simp add: jids_distinct_def used_jids_def)
qed

lemma jids_distinct_deletejob:
  assumes d: "jids_distinct (jobs s)"
  shows "jids_distinct (jobs (snd (deletejob p s)))"
proof (cases "p < 1 \<or> first_slot (\<lambda>j. pid j = p) (jobs s) = None")
  case True
  from deletejob_fails [OF True] d show ?thesis by simp
next
  case False
  then obtain i where i: "\<not> p < 1" "first_slot (\<lambda>j. pid j = p) (jobs s) = Some i"
    by auto
  from d have "distinct (map jid (filter in_use ((jobs s)[i := clearjob (jobs s ! i)])))"
    unfolding jids_distinct_def used_jids_def
    by (rule distinct_clear) (simp add: in_use_def clearjob_def)
  then show ?thesis
    by (simp add: deletejob_deletes [OF i] jids_distinct_def used_jids_def)
qed

lemma jids_distinct_run_ops:
  "next_above s \<Longrightarrow> jids_below_max (jobs s) \<Longrightarrow> jids_distinct (jobs s) \<Longrightarrow> no_wrap ops s \<Longrightarrow>
     run_ops ops s = Inr s' \<Longrightarrow> jids_distinct (jobs s')"
proof (induction ops arbitrary: s)
  case Nil
  then show ?case by simp
next
  case (Cons a ops)
  show ?case
  proof (cases a)
    case (Add p st cl)
    with Cons.prems(5) obtain b s1 where r: "addjob p st cl s = Inr (b, s1)"
      and t: "run_ops ops s1 = Inr s'"
      by (auto split: sum.splits)
    from Cons.prems(4) Add r have nw: "\<not> b \<or> nextjid s < int MAXJOBS" "no_wrap ops s1"
      by simp_all
    from next_above_addjob [OF Cons.prems(1,2) r nw(1)]
    have "next_above s1" "jids_below_max (jobs s1)" by simp_all
    moreover from Cons.prems(1,3) r have "jids_distinct (jobs s1)"
      by (rule jids_distinct_addjob)
    ultimately show ?thesis using nw(2) t by (rule Cons.IH)
  next
    case (Del p)
    with Cons.prems have "next_above (snd (deletejob p s))"
      "jids_below_max (jobs (snd (deletejob p s)))"
      "jids_distinct (jobs (snd (deletejob p s)))" "no_wrap ops (snd (deletejob p s))"
      "run_ops ops (snd (deletejob p s)) = Inr s'"
      by (auto intro: next_above_deletejob jids_below_max_deletejob jids_distinct_deletejob)
    from Cons.IH [OF this] show ?thesis .
  qed
qed

lemma jids_distinct_unless_wrapped:
  assumes "no_wrap ops (init_shell v)" and "run_ops ops (init_shell v) = Inr s"
  shows "jids_distinct (jobs s)"
proof -
  have "jids_distinct (jobs (init_shell v))"
    by (simp add: init_shell_eval jids_distinct_def used_jids_def in_use_def)
  with next_above_init [of v] assms show ?thesis
    by (blast intro: jids_distinct_run_ops)
qed

text \<open>
  C1: after every sequence of \<^verbatim>\<open>addjob\<close> and \<^verbatim>\<open>deletejob\<close> operations from the initial
  table, no two slots in use hold the same job id. The code breaks this, and the theorem
  evaluates it on such a sequence: fifteen jobs get the ids 1 to 15; deleting the second
  one leaves the counter at 16; the next job gets id 16 and the counter wraps to 1; the
  job after that gets id 1, which the first job still holds.
\<close>

theorem duplicate_job_id:
  "(case run_ops dup_ops (init_shell False) of
      Inr s \<Rightarrow> used_jids (jobs s) = [1, 16, 3, 4, 5, 6, 7, 8, 9, 10, 11, 12, 13, 14, 15, 1]
                \<and> \<not> jids_distinct (jobs s)
    | Inl x \<Rightarrow> False)"
  by code_simp

section \<open>The foreground job\<close>

subsection \<open>Well-formed tables\<close>

lemma table_okD:
  "table_ok js \<Longrightarrow> j \<in> set js \<Longrightarrow>
     (pid j = 0 \<longrightarrow> jid j = 0 \<and> state j = UNDEF) \<and> (pid j \<noteq> 0 \<longrightarrow> 0 < pid j \<and> jid j \<noteq> 0)
     \<and> INT_MIN \<le> jid j \<and> jid j \<le> INT_MAX"
  by (auto simp: table_ok_def free_cleared_def used_valid_def list_all_iff in_use_def)

lemma table_ok_length: "table_ok js \<Longrightarrow> length js = 16"
  by (simp add: table_ok_def)

lemma list_all_update: "list_all P js \<Longrightarrow> P j \<Longrightarrow> list_all P (js[i := j])"
  using set_update_subset_insert [of js i j] by (auto simp: list_all_iff)

lemma table_ok_fill:
  assumes "table_ok js" and "0 < p" and "n \<noteq> 0" and "INT_MIN \<le> n" and "n \<le> INT_MAX"
  shows "table_ok (js[i := \<lparr>pid = p, jid = n, state = st, cmdline = cl\<rparr>])"
  using assms
  by (simp add: table_ok_def free_cleared_def used_valid_def list_all_update in_use_def)

lemma table_ok_clear: "table_ok js \<Longrightarrow> table_ok (js[i := clearjob j])"
  by (simp add: table_ok_def free_cleared_def used_valid_def list_all_update
      in_use_def clearjob_def INT_MIN_def INT_MAX_def)

lemma table_ok_set_state:
  assumes "table_ok js" and "k < length js" and "pid (js ! k) \<noteq> 0"
  shows "table_ok (js[k := (js ! k)\<lparr>state := st\<rparr>])"
proof -
  from assms(2) have m: "js ! k \<in> set js" by simp
  from table_okD [OF assms(1) m] assms show ?thesis
    by (simp add: table_ok_def free_cleared_def used_valid_def list_all_update in_use_def)
qed

lemma table_ok_maxjid: "table_ok js \<Longrightarrow> 0 \<le> maxjid js \<and> maxjid js \<le> INT_MAX"
proof -
  assume t: "table_ok js"
  then have "\<forall>j\<in>set js. jid j < INT_MAX + 1"
    using table_okD [OF t] by fastforce
  then have "maxjid js < INT_MAX + 1"
    by (rule maxjid_below) (simp add: INT_MAX_def)
  with maxjid_nonneg [of js] show ?thesis by simp
qed

subsection \<open>The number of jobs\<close>

lemma used_count_le: "used_count js \<le> length js"
  by (simp add: used_count_def)

lemma used_count_fill:
  "i < length js \<Longrightarrow> \<not> in_use (js ! i) \<Longrightarrow> in_use j \<Longrightarrow>
     used_count (js[i := j]) = Suc (used_count js)"
proof (induction js arbitrary: i)
  case Nil
  then show ?case by simp
next
  case (Cons a js)
  then show ?case by (cases i) (auto simp: used_count_def)
qed

lemma used_count_set_state:
  "used_count (js[k := (js ! k)\<lparr>state := st\<rparr>]) = used_count js"
proof (induction js arbitrary: k)
  case Nil
  then show ?case by simp
next
  case (Cons a js)
  then show ?case by (cases k) (auto simp: used_count_def in_use_def)
qed

subsection \<open>The counter of a well-formed table\<close>

text \<open>The counter is an \<^verbatim>\<open>int\<close> other than 0.\<close>

lemma next_ok_value:
  assumes "next_ok s" and "table_ok (jobs s)"
  shows "nextjid s \<noteq> 0 \<and> INT_MIN \<le> nextjid s \<and> nextjid s \<le> INT_MAX"
proof -
  from used_count_le [of "jobs s"] table_ok_length [OF assms(2)]
  have "int (used_count (jobs s)) \<le> 16" by simp
  with assms(1) show ?thesis
    by (auto simp: next_ok_def INT_MIN_def INT_MAX_def)
qed

lemma next_ok_addjob:
  assumes n: "next_ok s" and t: "table_ok (jobs s)" and r: "addjob p st cl s = Inr (b, s')"
  shows "next_ok s'"
  using r
proof (cases rule: addjob_cases)
  case fail
  with n show ?thesis by (simp add: next_ok_def)
next
  case (add i)
  from first_slot_Some [OF add(3)] have i: "i < length (jobs s)" "\<not> in_use (jobs s ! i)"
    by (simp_all add: in_use_def)
  from add(2) have "in_use \<lparr>pid = p, jid = nextjid s, state = st, cmdline = cl\<rparr>"
    by (simp add: in_use_def)
  with i add(5) have c: "used_count (jobs s') = Suc (used_count (jobs s))"
    by (simp add: used_count_fill)
  from used_count_le [of "jobs s'"] table_ok_length [OF t] add(5) c
  have c16: "int (used_count (jobs s)) < 16" by simp
  note v = next_ok_value [OF n t]
  show ?thesis
  proof (cases "nextjid s = INT_MAX")
    case True
    with add(6) int32_overflow have "nextjid s' = INT_MIN"
      by (simp add: INT_MIN_def)
    then show ?thesis by (simp add: next_ok_def)
  next
    case False
    with v have e: "int32 (nextjid s + 1) = nextjid s + 1"
      by (intro int32_id) simp_all
    show ?thesis
    proof (cases "1 \<le> nextjid s")
      case True
      with e add(6) v False show ?thesis
        by (auto simp: next_ok_def INT_MAX_def)
    next
      case False
      with n have "nextjid s \<le> INT_MIN + int (used_count (jobs s))"
        by (auto simp: next_ok_def)
      with c16 e add(6) c v show ?thesis
        by (auto simp: next_ok_def INT_MIN_def)
    qed
  qed
qed

lemma next_ok_deletejob:
  assumes t: "table_ok (jobs s)" and n: "next_ok s"
  shows "next_ok (snd (deletejob p s))"
proof (cases "p < 1 \<or> first_slot (\<lambda>j. pid j = p) (jobs s) = None")
  case True
  from deletejob_fails [OF True] n show ?thesis by simp
next
  case False
  then obtain i where i: "\<not> p < 1" "first_slot (\<lambda>j. pid j = p) (jobs s) = Some i"
    by auto
  let ?js = "(jobs s)[i := clearjob (jobs s ! i)]"
  from t have "table_ok ?js" by (rule table_ok_clear)
  note m = table_ok_maxjid [OF this]
  have "(1 \<le> int32 (maxjid ?js + 1) \<and> int32 (maxjid ?js + 1) \<le> INT_MAX)
      \<or> int32 (maxjid ?js + 1) = INT_MIN"
  proof (cases "maxjid ?js = INT_MAX")
    case True
    with int32_overflow show ?thesis by simp
  next
    case False
    with m have "int32 (maxjid ?js + 1) = maxjid ?js + 1"
      by (intro int32_id) (simp_all add: INT_MIN_def)
    with m False show ?thesis by simp
  qed
  then show ?thesis
    by (auto simp: deletejob_deletes [OF i] next_ok_def)
qed

lemma next_ok_set_state:
  "next_ok s \<Longrightarrow> jobs s' = (jobs s)[k := (jobs s ! k)\<lparr>state := st\<rparr>] \<Longrightarrow>
     nextjid s' = nextjid s \<Longrightarrow> next_ok s'"
  by (simp add: next_ok_def used_count_set_state)

lemma next_ok_same: "next_ok s \<Longrightarrow> jobs s' = jobs s \<Longrightarrow> nextjid s' = nextjid s \<Longrightarrow> next_ok s'"
  by (simp add: next_ok_def)

subsection \<open>Counting the foreground jobs\<close>

lemma no_fg_fg_only: "no_fg js \<Longrightarrow> fg_only p js"
  by (auto simp: no_fg_def fg_only_def list_all_iff)

lemma no_fg_count: "no_fg js \<Longrightarrow> fg_count js = 0"
  by (auto simp: no_fg_def fg_count_def list_all_iff filter_empty_conv)

lemma fg_count_update_le:
  "\<not> (in_use j \<and> state j = FG) \<Longrightarrow> fg_count (js[i := j]) \<le> fg_count js"
proof (induction js arbitrary: i)
  case Nil
  then show ?case by simp
next
  case (Cons a js)
  show ?case
  proof (cases i)
    case 0
    with Cons.prems show ?thesis by (auto simp: fg_count_def)
  next
    case (Suc k)
    with Cons.IH [OF Cons.prems, of k] show ?thesis by (simp add: fg_count_def)
  qed
qed

lemma fg_count_update_no_fg: "no_fg js \<Longrightarrow> fg_count (js[i := j]) \<le> 1"
proof (induction js arbitrary: i)
  case Nil
  then show ?case by (simp add: fg_count_def)
next
  case (Cons a js)
  from Cons.prems have a: "state a \<noteq> FG" and n: "no_fg js"
    by (simp_all add: no_fg_def)
  show ?case
  proof (cases i)
    case 0
    with no_fg_count [OF n] show ?thesis by (simp add: fg_count_def)
  next
    case (Suc k)
    with Cons.IH [OF n, of k] a show ?thesis by (simp add: fg_count_def)
  qed
qed

subsection \<open>Distinct process ids\<close>

lemma distinct_used_pids_fill:
  "distinct (used_pids js) \<Longrightarrow> pid (js ! i) = 0 \<Longrightarrow> pid j \<notin> set (used_pids js) \<Longrightarrow>
     distinct (used_pids (js[i := j]))"
  unfolding used_pids_def by (rule distinct_fill) (simp_all add: in_use_def)

lemma distinct_used_pids_clear:
  "distinct (used_pids js) \<Longrightarrow> distinct (used_pids (js[i := clearjob j]))"
  unfolding used_pids_def by (rule distinct_clear) (simp_all add: in_use_def clearjob_def)

lemma used_pids_set_state:
  "used_pids (js[k := (js ! k)\<lparr>state := st\<rparr>]) = used_pids js"
proof (induction js arbitrary: k)
  case Nil
  then show ?case by simp
next
  case (Cons a js)
  then show ?case by (cases k) (auto simp: used_pids_def in_use_def)
qed

subsection \<open>What the table operations and the handlers preserve\<close>

lemma addjob_sys:
  assumes t: "table_ok (jobs s)" and n: "next_ok s" and f: "no_fg (jobs s)"
    and r: "addjob p st cl s = Inr (b, s')"
  shows "table_ok (jobs s') \<and> next_ok s' \<and> fg_only p (jobs s') \<and> fg_count (jobs s') \<le> 1"
proof -
  note k = next_ok_addjob [OF n t r]
  from r show ?thesis
  proof (cases rule: addjob_cases)
    case fail
    with t f k show ?thesis by (simp add: no_fg_fg_only no_fg_count)
  next
    case (add i)
    note v = next_ok_value [OF n t]
    have "table_ok ((jobs s)[i := \<lparr>pid = p, jid = nextjid s, state = st, cmdline = cl\<rparr>])"
      using t add(2) v by (intro table_ok_fill) simp_all
    moreover have "fg_only p ((jobs s)[i := \<lparr>pid = p, jid = nextjid s, state = st, cmdline = cl\<rparr>])"
      using no_fg_fg_only [OF f, of p] by (simp add: fg_only_def list_all_update)
    moreover have "fg_count ((jobs s)[i := \<lparr>pid = p, jid = nextjid s, state = st, cmdline = cl\<rparr>]) \<le> 1"
      using f by (rule fg_count_update_no_fg)
    ultimately show ?thesis using add(5) k by simp
  qed
qed

lemma deletejob_sys:
  assumes t: "table_ok (jobs s)" and n: "next_ok s"
  shows "table_ok (jobs (snd (deletejob p s))) \<and> next_ok (snd (deletejob p s))
    \<and> (fg_only q (jobs s) \<longrightarrow> fg_only q (jobs (snd (deletejob p s))))
    \<and> (no_fg (jobs s) \<longrightarrow> no_fg (jobs (snd (deletejob p s))))
    \<and> fg_count (jobs (snd (deletejob p s))) \<le> fg_count (jobs s)"
proof (cases "p < 1 \<or> first_slot (\<lambda>j. pid j = p) (jobs s) = None")
  case True
  from deletejob_fails [OF True] assms show ?thesis by simp
next
  case False
  then obtain i where i: "\<not> p < 1" "first_slot (\<lambda>j. pid j = p) (jobs s) = Some i"
    by auto
  from t have "table_ok ((jobs s)[i := clearjob (jobs s ! i)])"
    by (rule table_ok_clear)
  moreover have "fg_count ((jobs s)[i := clearjob (jobs s ! i)]) \<le> fg_count (jobs s)"
    by (rule fg_count_update_le) (simp add: clearjob_def)
  ultimately show ?thesis
    using next_ok_deletejob [OF t n, of p]
    by (simp add: deletejob_deletes [OF i] fg_only_def no_fg_def list_all_update clearjob_def)
qed

lemma reap_sys:
  assumes t: "table_ok (jobs s)" and n: "next_ok s"
  shows "table_ok (jobs (reap p w s)) \<and> next_ok (reap p w s)
    \<and> (fg_only q (jobs s) \<longrightarrow> fg_only q (jobs (reap p w s)))
    \<and> (no_fg (jobs s) \<longrightarrow> no_fg (jobs (reap p w s)))
    \<and> fg_count (jobs (reap p w s)) \<le> fg_count (jobs s)"
proof (cases w)
  case (WExited k)
  with deletejob_sys [OF t n, of p q] show ?thesis by (simp add: reap_def)
next
  case (WSignaled k)
  let ?s = "s\<lparr>out := out s @ [Written (signal_msg ''terminated'' (pid2jid (jobs s) p) p k)]\<rparr>"
  from n have "next_ok ?s" by (rule next_ok_same) simp_all
  with deletejob_sys [of ?s p q] t WSignaled show ?thesis by (simp add: reap_def)
next
  case (WStopped k)
  let ?s = "s\<lparr>out := out s @ [Written (signal_msg ''stopped'' (pid2jid (jobs s) p) p k)]\<rparr>"
  from n have "next_ok ?s" by (rule next_ok_same) simp_all
  with t WStopped show ?thesis by (simp add: reap_def)
qed

lemma sigchld_sys:
  "table_ok (jobs s) \<Longrightarrow> next_ok s \<Longrightarrow>
     table_ok (jobs (sigchld_handler rs s)) \<and> next_ok (sigchld_handler rs s)
     \<and> (fg_only q (jobs s) \<longrightarrow> fg_only q (jobs (sigchld_handler rs s)))
     \<and> (no_fg (jobs s) \<longrightarrow> no_fg (jobs (sigchld_handler rs s)))
     \<and> fg_count (jobs (sigchld_handler rs s)) \<le> fg_count (jobs s)"
proof (induction rs s rule: sigchld_handler.induct)
  case (1 s)
  then show ?case by simp
next
  case (2 p status rest s)
  show ?case
  proof (cases "0 < p")
    case True
    from reap_sys [OF "2.prems", of p status q] "2.IH" [OF True] True show ?thesis
      by auto
  next
    case False
    with "2.prems" show ?thesis by simp
  qed
qed

lemma sigtstp_sys:
  assumes "sigtstp_handler ok s = Inr s'" and "table_ok (jobs s)" and n: "next_ok s"
  shows "table_ok (jobs s') \<and> next_ok s'
    \<and> (fg_only q (jobs s) \<longrightarrow> fg_only q (jobs s'))
    \<and> (no_fg (jobs s) \<longrightarrow> no_fg (jobs s'))
    \<and> fg_count (jobs s') \<le> fg_count (jobs s)"
proof (cases "fgpid (jobs s) = 0")
  case True
  with assms show ?thesis by (simp add: sigtstp_handler_def)
next
  case False
  with assms(1) obtain k where k: "getjobpid (jobs s) (fgpid (jobs s)) = Some k"
    and s': "s' = s\<lparr>jobs := (jobs s)[k := (jobs s ! k)\<lparr>state := ST\<rparr>]\<rparr>"
    by (auto simp: sigtstp_handler_def Let_def split: if_splits option.splits)
  from k have "first_slot (\<lambda>j. pid j = fgpid (jobs s)) (jobs s) = Some k"
    by (simp add: getjobpid_def split: if_splits)
  from first_slot_Some [OF this] False have kk: "k < length (jobs s)" "pid (jobs s ! k) \<noteq> 0"
    by auto
  have "fg_count ((jobs s)[k := (jobs s ! k)\<lparr>state := ST\<rparr>]) \<le> fg_count (jobs s)"
    by (rule fg_count_update_le) simp
  moreover from n s' have "next_ok s'" by (intro next_ok_set_state [of s s' k ST]) simp_all
  ultimately show ?thesis using table_ok_set_state [OF assms(2) kk] s'
    by (simp add: fg_only_def no_fg_def list_all_update)
qed

subsection \<open>What a step of the system preserves\<close>

lemma do_bgfg_Inr:
  assumes "do_bgfg e argv s = Inr (p, s')"
  shows "\<exists>i k. getjobjid (jobs s) i = Some k \<and> p = pid (jobs s ! k) \<and> kill_ok e
    \<and> 2 \<le> length argv
    \<and> i = (case scan_jobspec (argv ! 1) of Some n \<Rightarrow> n | None \<Rightarrow> jid0 e)
    \<and> (if argv ! 0 = ''bg''
        then s' = s\<lparr>jobs := (jobs s)[k := (jobs s ! k)\<lparr>state := BG\<rparr>],
                    out := out s @ [Written (job_msg i p (cmdline (jobs s ! k)))]\<rparr>
        else s' = s\<lparr>jobs := (jobs s)[k := (jobs s ! k)\<lparr>state := FG\<rparr>]\<rparr>)"
proof (cases "getjobjid (jobs s) (case scan_jobspec (argv ! 1) of Some n \<Rightarrow> n | None \<Rightarrow> jid0 e)")
  case None
  with assms show ?thesis by (simp add: do_bgfg_def split: if_splits)
next
  case (Some k)
  with assms show ?thesis
    by (auto simp: do_bgfg_def Let_def split: if_splits)
qed

lemma do_bgfg_sys:
  assumes r: "do_bgfg e argv s = Inr (p, s')" and t: "table_ok (jobs s)" and f: "no_fg (jobs s)"
    and n: "next_ok s"
  shows "table_ok (jobs s') \<and> next_ok s' \<and> fg_only p (jobs s')
    \<and> fg_count (jobs s') \<le> 1 \<and> forked s' = forked s"
proof -
  from do_bgfg_Inr [OF r] obtain i k where k: "getjobjid (jobs s) i = Some k"
    and p: "p = pid (jobs s ! k)"
    and s': "if argv ! 0 = ''bg''
        then s' = s\<lparr>jobs := (jobs s)[k := (jobs s ! k)\<lparr>state := BG\<rparr>],
                    out := out s @ [Written (job_msg i p (cmdline (jobs s ! k)))]\<rparr>
        else s' = s\<lparr>jobs := (jobs s)[k := (jobs s ! k)\<lparr>state := FG\<rparr>]\<rparr>"
    by blast
  from k have fs: "first_slot (\<lambda>j. jid j = i) (jobs s) = Some k" and i1: "1 \<le> i"
    by (auto simp: getjobjid_def split: if_splits)
  from first_slot_Some [OF fs] have kk: "k < length (jobs s)" "jid (jobs s ! k) = i"
    by auto
  then have m: "jobs s ! k \<in> set (jobs s)" by simp
  from table_okD [OF t m] kk(2) i1 have u: "pid (jobs s ! k) \<noteq> 0" by auto
  note ts = table_ok_set_state [OF t kk(1) u]
  note fo = no_fg_fg_only [OF f, of p]
  note fc = fg_count_update_no_fg [OF f, of k]
  show ?thesis
  proof (cases "argv ! 0 = ''bg''")
    case True
    with s' n have "next_ok s'" by (intro next_ok_set_state [of s s' k BG]) simp_all
    with True s' ts [of BG] fo fc [of "(jobs s ! k)\<lparr>state := BG\<rparr>"] p show ?thesis
      by (simp add: fg_only_def list_all_update)
  next
    case False
    with s' n have "next_ok s'" by (intro next_ok_set_state [of s s' k FG]) simp_all
    with False s' ts [of FG] fo fc [of "(jobs s ! k)\<lparr>state := FG\<rparr>"] p show ?thesis
      by (simp add: fg_only_def list_all_update)
  qed
qed

lemma builtin_cmd_sys:
  assumes r: "builtin_cmd e argv p0 s = Inr (b, p, s')" and t: "table_ok (jobs s)"
    and f: "no_fg (jobs s)" and n: "next_ok s"
  shows "table_ok (jobs s') \<and> next_ok s' \<and> fg_only p (jobs s')
    \<and> fg_count (jobs s') \<le> 1 \<and> forked s' = forked s \<and> (\<not> b \<longrightarrow> s' = s)"
proof (cases argv)
  case Nil
  with r show ?thesis by (simp add: builtin_cmd_def)
next
  case (Cons a args)
  show ?thesis
  proof (cases "a = ''fg'' \<or> a = ''bg''")
    case True
    with r Cons have "do_bgfg e argv s = Inr (p, s')" and "b"
      by (auto simp: builtin_cmd_def split: if_splits sum.splits)
    with do_bgfg_sys [OF _ t f n] show ?thesis by simp
  next
    case False
    have "next_ok (listjobs s)" using n by (rule next_ok_same) (simp_all add: listjobs_def)
    with False r Cons t n no_fg_fg_only [OF f] no_fg_count [OF f] show ?thesis
      by (auto simp: builtin_cmd_def listjobs_def split: if_splits)
  qed
qed

text \<open>
  How \<^verbatim>\<open>eval\<close> goes on a command that is not builtin: the child is registered by
  \<^verbatim>\<open>addjob\<close>, and only the output trace changes after that.
\<close>

lemma eval_spawn:
  assumes r: "eval e cl s = Inr (p, s')" and pl: "parseline cl = Inr (bg_flag, argv)"
    and bc: "builtin_cmd e argv (pid0 e) s = Inr (False, q, s1)"
  obtains b s2 where "p = fork_ret e"
    and "addjob (fork_ret e) (if bg_flag then BG else FG) cl
           (if 0 < fork_ret e then s\<lparr>forked := forked s @ [fork_ret e]\<rparr> else s) = Inr (b, s2)"
    and "jobs s' = jobs s2" and "nextjid s' = nextjid s2" and "forked s' = forked s2"
proof -
  let ?s1 = "if 0 < fork_ret e then s\<lparr>forked := forked s @ [fork_ret e]\<rparr> else s"
  let ?st = "if bg_flag then BG else FG"
  from r pl bc have nf: "\<not> fork_ret e < 0" "\<not> (fork_ret e = 0 \<and> exec_ok e)"
    by (auto simp: eval_def split: if_splits)
  with r pl bc have c: "(case addjob (fork_ret e) ?st cl ?s1 of
        Inl x \<Rightarrow> Inl x
      | Inr (added, s2) \<Rightarrow>
          if bg_flag then
            (if MAXLINE + 10 \<le> length (job_msg (pid2jid (jobs s2) (fork_ret e)) (fork_ret e) cl)
             then Inl (Crashed BufferOverflow)
             else Inr (fork_ret e, s2\<lparr>out := out s2 @
                    [Written (job_msg (pid2jid (jobs s2) (fork_ret e)) (fork_ret e) cl)]\<rparr>))
          else Inr (fork_ret e, s2)) = Inr (p, s')"
    by (simp add: eval_def Let_def)
  then obtain b s2 where a: "addjob (fork_ret e) ?st cl ?s1 = Inr (b, s2)"
    by (cases "addjob (fork_ret e) ?st cl ?s1") auto
  with c have "p = fork_ret e" "jobs s' = jobs s2" "nextjid s' = nextjid s2"
    "forked s' = forked s2"
    by (auto split: if_splits)
  with a that show ?thesis by blast
qed

lemma eval_sys:
  assumes r: "eval e cl s = Inr (p, s')" and t: "table_ok (jobs s)" and n: "next_ok s"
    and f: "no_fg (jobs s)"
  shows "table_ok (jobs s') \<and> next_ok s' \<and> fg_only p (jobs s')
    \<and> fg_count (jobs s') \<le> 1"
proof -
  from r obtain bg_flag argv b q s1 where pl: "parseline cl = Inr (bg_flag, argv)"
    and bc: "builtin_cmd e argv (pid0 e) s = Inr (b, q, s1)"
    by (auto simp: eval_def split: sum.splits prod.splits)
  note bs = builtin_cmd_sys [OF bc t f n]
  show ?thesis
  proof (cases b)
    case True
    with r pl bc have "p = q" "s' = s1" by (auto simp: eval_def)
    with bs show ?thesis by simp
  next
    case False
    let ?s1 = "if 0 < fork_ret e then s\<lparr>forked := forked s @ [fork_ret e]\<rparr> else s"
    from False bc have bc': "builtin_cmd e argv (pid0 e) s = Inr (False, q, s1)" by simp
    from r pl bc' obtain b2 s2 where p: "p = fork_ret e"
      and a: "addjob (fork_ret e) (if bg_flag then BG else FG) cl ?s1 = Inr (b2, s2)"
      and s': "jobs s' = jobs s2" "nextjid s' = nextjid s2"
      by (rule eval_spawn)
    have j: "table_ok (jobs ?s1)" "no_fg (jobs ?s1)" using t f by simp_all
    have "next_ok ?s1" using n by (rule next_ok_same) simp_all
    from addjob_sys [OF j(1) this j(2) a] s' p next_ok_same [of s2 s'] show ?thesis
      by simp
  qed
qed

lemma waitfg_done:
  assumes t: "table_ok js" and f: "fg_only p js" and w: "\<not> (pid2jid js p \<noteq> 0 \<and> p = fgpid js)"
  shows "no_fg js"
proof (rule ccontr)
  assume "\<not> no_fg js"
  then obtain j where j: "j \<in> set js" "state j = FG"
    by (auto simp: no_fg_def list_all_iff)
  with f have pj: "pid j = p" by (auto simp: fg_only_def list_all_iff)
  from table_okD [OF t j(1)] j(2) have "pid j \<noteq> 0" by auto
  with pj table_okD [OF t j(1)] have p1: "0 < p" by simp
  from j first_slot_exists [of js "\<lambda>j. state j = FG"] obtain i
    where i: "first_slot (\<lambda>j. state j = FG) js = Some i" by auto
  from first_slot_Some [OF i] have "i < length js" "state (js ! i) = FG" by auto
  with f have "pid (js ! i) = p" by (auto simp: fg_only_def list_all_iff)
  with i have fp: "fgpid js = p" by (simp add: fgpid_def)
  from j pj first_slot_exists [of js "\<lambda>j. pid j = p"] obtain k
    where k: "first_slot (\<lambda>j. pid j = p) js = Some k" by auto
  from first_slot_Some [OF k] have kk: "k < length js" "pid (js ! k) = p" by auto
  then have "js ! k \<in> set js" by simp
  from table_okD [OF t this] kk(2) p1 have "jid (js ! k) \<noteq> 0" by simp
  with k p1 have "pid2jid js p \<noteq> 0" by (simp add: pid2jid_def)
  with fp w show False by simp
qed

lemma handler_sys:
  assumes "handler g s = Inr s'" and "table_ok (jobs s)" and "next_ok s"
  shows "table_ok (jobs s') \<and> next_ok s'
    \<and> (fg_only q (jobs s) \<longrightarrow> fg_only q (jobs s'))
    \<and> (no_fg (jobs s) \<longrightarrow> no_fg (jobs s'))
    \<and> fg_count (jobs s') \<le> fg_count (jobs s)"
proof (cases g)
  case (SIGCHLD rs)
  with assms sigchld_sys [of s rs q] show ?thesis by auto
next
  case (SIGINT ok)
  with assms show ?thesis by (auto simp: sigint_handler_def split: if_splits)
next
  case (SIGTSTP ok)
  with assms sigtstp_sys [of ok s s' q] show ?thesis by auto
next
  case SIGQUIT
  with assms show ?thesis by simp
qed

lemma fg_at_handler:
  "fg_at l js \<Longrightarrow> (\<And>q. fg_only q js \<longrightarrow> fg_only q js') \<Longrightarrow> (no_fg js \<longrightarrow> no_fg js') \<Longrightarrow>
     fg_at (case l of Suspended p \<Rightarrow> WaitTest p | l' \<Rightarrow> l') js'"
  by (cases l) auto

lemma step_sys:
  assumes ok: "sys_ok c" and st: "step ev c = Inr c'"
  shows "sys_ok c'"
proof (cases ev)
  case (Line e cl)
  show ?thesis
  proof (cases "at c")
    case AtPrompt
    with st Line obtain p s' where ev: "eval e cl (sh c) = Inr (p, s')"
      and c': "c' = \<lparr>sh = s', at = WaitTest p\<rparr>"
      by (auto split: sum.splits)
    from ok AtPrompt eval_sys [OF ev] c' show ?thesis
      by (simp add: sys_ok_def)
  next
    case (WaitTest p)
    with st Line ok show ?thesis by simp
  next
    case (WaitEnter p)
    with st Line ok show ?thesis by simp
  next
    case (Suspended p)
    with st Line ok show ?thesis by simp
  qed
next
  case Eof
  with st ok show ?thesis by (cases "at c") auto
next
  case Advance
  show ?thesis
  proof (cases "at c")
    case AtPrompt
    with st Advance ok show ?thesis by simp
  next
    case (WaitTest p)
    with ok have t: "table_ok (jobs (sh c))" and f: "fg_only p (jobs (sh c))"
      by (simp_all add: sys_ok_def)
    from waitfg_done [OF t f] st Advance WaitTest ok show ?thesis
      by (auto simp: sys_ok_def waitfg_test_def)
  next
    case (WaitEnter p)
    with st Advance ok show ?thesis by (auto simp: sys_ok_def)
  next
    case (Suspended p)
    with st Advance ok show ?thesis by simp
  qed
next
  case (Deliver g)
  with st obtain s' where h: "handler g (sh c) = Inr s'"
    and c': "c' = \<lparr>sh = s', at = (case at c of Suspended p \<Rightarrow> WaitTest p | l \<Rightarrow> l)\<rparr>"
    by (auto split: sum.splits)
  from ok have t: "table_ok (jobs (sh c))" and n: "next_ok (sh c)"
    and f: "fg_at (at c) (jobs (sh c))" and o: "fg_count (jobs (sh c)) \<le> 1"
    by (simp_all add: sys_ok_def)
  from handler_sys [OF h t n] have k: "table_ok (jobs s')" "next_ok s'"
    "\<And>q. fg_only q (jobs (sh c)) \<longrightarrow> fg_only q (jobs s')"
    "no_fg (jobs (sh c)) \<longrightarrow> no_fg (jobs s')"
    "fg_count (jobs s') \<le> fg_count (jobs (sh c))"
    by auto
  from fg_at_handler [OF f k(3) k(4)] k(1,2,5) o c' show ?thesis
    by (simp add: sys_ok_def)
qed

lemma run_sys:
  "sys_ok c \<Longrightarrow> run evs c = Inr c' \<Longrightarrow> sys_ok c'"
proof (induction evs arbitrary: c)
  case Nil
  then show ?case by simp
next
  case (Cons ev evs)
  from Cons.prems(2) obtain c1 where c1: "step ev c = Inr c1" "run evs c1 = Inr c'"
    by (auto split: sum.splits)
  from step_sys [OF Cons.prems(1) c1(1)] have "sys_ok c1" .
  from Cons.IH [OF this c1(2)] show ?case .
qed

lemma init_sys_ok: "sys_ok (init_sys v)"
  by (simp add: sys_ok_def init_sys_def init_shell_eval table_ok_def free_cleared_def
      used_valid_def in_use_def no_fg_def fg_count_def list_all_iff next_ok_def
      INT_MIN_def INT_MAX_def)

subsection \<open>The size of the table\<close>

text \<open>
  The table keeps its \<^verbatim>\<open>MAXJOBS\<close> slots, so the scans of the model visit the slots
  \<^verbatim>\<open>0\<close> to \<^verbatim>\<open>MAXJOBS - 1\<close>, as the loops of the code do.
\<close>

lemma table_size: "run evs (init_sys v) = Inr c \<Longrightarrow> length (jobs (sh c)) = MAXJOBS"
  using run_sys [OF init_sys_ok, of evs v c] by (simp add: sys_ok_def table_ok_def)

subsection \<open>Distinct process ids in the table\<close>

text \<open>
  The process ids in the table are distinct as long as \<^verbatim>\<open>fork\<close> returns no process id
  that is still in the table.
\<close>

lemma addjob_pids:
  assumes "pids_distinct (jobs s)" and "p \<le> 0 \<or> p \<notin> set (map pid (jobs s))"
    and r: "addjob p st cl s = Inr (b, s')"
  shows "pids_distinct (jobs s')"
  using r
proof (cases rule: addjob_cases)
  case fail
  with assms show ?thesis by simp
next
  case (add i)
  from first_slot_Some [OF add(3)] have f: "pid (jobs s ! i) = 0" by simp
  from add(2) assms(2) have "p \<notin> set (used_pids (jobs s))" by (auto simp: used_pids_def)
  with assms(1) f add(5) show ?thesis
    by (simp add: pids_distinct_def distinct_used_pids_fill)
qed

lemma deletejob_pids: "pids_distinct (jobs s) \<Longrightarrow> pids_distinct (jobs (snd (deletejob p s)))"
  by (simp add: deletejob_def Let_def pids_distinct_def distinct_used_pids_clear
      split: option.splits)

lemma reap_pids: "pids_distinct (jobs s) \<Longrightarrow> pids_distinct (jobs (reap p w s))"
proof (cases w)
  case (WExited n)
  assume "pids_distinct (jobs s)"
  with WExited deletejob_pids [of s p] show ?thesis by (simp add: reap_def)
next
  case (WSignaled n)
  let ?s = "s\<lparr>out := out s @ [Written (signal_msg ''terminated'' (pid2jid (jobs s) p) p n)]\<rparr>"
  assume "pids_distinct (jobs s)"
  with WSignaled deletejob_pids [of ?s p] show ?thesis by (simp add: reap_def)
next
  case (WStopped n)
  assume "pids_distinct (jobs s)"
  with WStopped show ?thesis by (simp add: reap_def)
qed

lemma sigchld_pids:
  "pids_distinct (jobs s) \<Longrightarrow> pids_distinct (jobs (sigchld_handler rs s))"
  by (induction rs s rule: sigchld_handler.induct) (simp_all add: reap_pids)

lemma handler_pids:
  assumes "handler g s = Inr s'" and "pids_distinct (jobs s)"
  shows "pids_distinct (jobs s')"
proof (cases g)
  case (SIGCHLD rs)
  with assms sigchld_pids [of s rs] show ?thesis by auto
next
  case (SIGINT ok)
  with assms show ?thesis by (auto simp: sigint_handler_def split: if_splits)
next
  case (SIGTSTP ok)
  with assms show ?thesis
    by (auto simp: sigtstp_handler_def Let_def pids_distinct_def used_pids_set_state
        split: if_splits option.splits)
next
  case SIGQUIT
  with assms show ?thesis by simp
qed

lemma eval_pids:
  assumes r: "eval e cl s = Inr (p, s')" and d: "pids_distinct (jobs s)"
    and o: "fork_ret e \<le> 0 \<or> fork_ret e \<notin> set (map pid (jobs s))"
  shows "pids_distinct (jobs s')"
proof -
  from r obtain bg_flag argv b q s1 where pl: "parseline cl = Inr (bg_flag, argv)"
    and bc: "builtin_cmd e argv (pid0 e) s = Inr (b, q, s1)"
    by (auto simp: eval_def split: sum.splits prod.splits)
  show ?thesis
  proof (cases b)
    case True
    with r pl bc have s1: "s' = s1" by (auto simp: eval_def)
    from bc True d have "pids_distinct (jobs s1)"
      by (auto simp: builtin_cmd_def listjobs_def pids_distinct_def used_pids_set_state
          split: list.splits if_splits sum.splits dest!: do_bgfg_Inr)
    with s1 show ?thesis by simp
  next
    case False
    let ?s1 = "if 0 < fork_ret e then s\<lparr>forked := forked s @ [fork_ret e]\<rparr> else s"
    from False bc have bc': "builtin_cmd e argv (pid0 e) s = Inr (False, q, s1)" by simp
    from r pl bc' obtain b2 s2
      where a: "addjob (fork_ret e) (if bg_flag then BG else FG) cl ?s1 = Inr (b2, s2)"
      and s': "jobs s' = jobs s2"
      by (rule eval_spawn)
    have "pids_distinct (jobs ?s1)" "fork_ret e \<le> 0 \<or> fork_ret e \<notin> set (map pid (jobs ?s1))"
      using d o by auto
    from addjob_pids [OF this a] s' show ?thesis by simp
  qed
qed

lemma step_pids:
  assumes "pids_distinct (jobs (sh c))" and "os_ok ev c" and "step ev c = Inr c'"
  shows "pids_distinct (jobs (sh c'))"
proof (cases ev)
  case (Line e cl)
  with assms show ?thesis
    by (cases "at c") (auto split: sum.splits dest: eval_pids)
next
  case Eof
  with assms show ?thesis by (cases "at c") auto
next
  case Advance
  with assms show ?thesis by (cases "at c") auto
next
  case (Deliver g)
  with assms show ?thesis by (auto split: sum.splits dest: handler_pids)
qed

lemma run_pids:
  "pids_distinct (jobs (sh c)) \<Longrightarrow> os_run evs c \<Longrightarrow> run evs c = Inr c' \<Longrightarrow>
     pids_distinct (jobs (sh c'))"
proof (induction evs arbitrary: c)
  case Nil
  then show ?case by simp
next
  case (Cons ev evs)
  from Cons.prems(3) obtain c1 where c1: "step ev c = Inr c1" "run evs c1 = Inr c'"
    by (auto split: sum.splits)
  with Cons.prems(2) have o: "os_ok ev c" "os_run evs c1" by auto
  from step_pids [OF Cons.prems(1) o(1) c1(1)] have "pids_distinct (jobs (sh c1))" .
  from Cons.IH [OF this o(2) c1(2)] show ?case .
qed

lemma reachable_pids_distinct:
  "os_run evs (init_sys v) \<Longrightarrow> run evs (init_sys v) = Inr c \<Longrightarrow> pids_distinct (jobs (sh c))"
proof -
  have "pids_distinct (jobs (sh (init_sys v)))"
    by (simp add: init_sys_def init_shell_eval pids_distinct_def used_pids_def in_use_def)
  then show "os_run evs (init_sys v) \<Longrightarrow> run evs (init_sys v) = Inr c \<Longrightarrow> ?thesis"
    by (rule run_pids)
qed

subsection \<open>At most one foreground job\<close>

text \<open>
  C8. In every state the system reaches from its initial state (by evaluating command lines,
  which registers spawned jobs and runs the \<^verbatim>\<open>fg\<close> and \<^verbatim>\<open>bg\<close> transitions, by advancing
  inside \<^verbatim>\<open>waitfg\<close>, and by running the handlers, which mark stops and delete jobs), at most
  one slot in use has state Foreground.
\<close>

theorem at_most_one_foreground:
  "run evs (init_sys v) = Inr c \<Longrightarrow> fg_count (jobs (sh c)) \<le> 1"
  using run_sys [OF init_sys_ok] by (simp add: sys_ok_def)

theorem at_most_one_foreground_witness:
  "\<exists>c. run (take 5 session) (init_sys False) = Inr c
         \<and> at c = Suspended 100 \<and> fg_count (jobs (sh c)) \<le> 1
         \<and> map state (filter in_use (jobs (sh c))) = [FG]"
proof -
  let ?c = "projr (run (take 5 session) (init_sys False))"
  have b: "run (take 5 session) (init_sys False) = Inr ?c"
    by code_simp
  have c: "at ?c = Suspended 100" "map state (filter in_use (jobs (sh ?c))) = [FG]"
    by code_simp+
  from at_most_one_foreground [OF b] b c
  have "run (take 5 session) (init_sys False) = Inr ?c
         \<and> at ?c = Suspended 100 \<and> fg_count (jobs (sh ?c)) \<le> 1
         \<and> map state (filter in_use (jobs (sh ?c))) = [FG]"
    by simp
  then show ?thesis by (rule exI)
qed

section \<open>The child-status handler\<close>

lemma bg_shell_reached:
  "run (take 2 session) (init_sys False) = Inr \<lparr>sh = bg_shell, at = AtPrompt\<rparr>
   \<and> jobs bg_shell =
       \<lparr>pid = 100, jid = 1, state = BG, cmdline = ''/bin/sleep 5 &\<newline>''\<rparr>
       # replicate 15 \<lparr>pid = 0, jid = 0, state = UNDEF, cmdline = []\<rparr>"
  by code_simp

lemma in_table_slot:
  assumes "p \<in> set (map pid js)"
  obtains i where "first_slot (\<lambda>j. pid j = p) js = Some i" "i < length js" "pid (js ! i) = p"
proof -
  from assms first_slot_exists [of js "\<lambda>j. pid j = p"] obtain i
    where i: "first_slot (\<lambda>j. pid j = p) js = Some i" by auto
  from first_slot_Some [OF i] i that show ?thesis by auto
qed

lemma used_pids_mem: "p \<noteq> 0 \<Longrightarrow> p \<in> set (used_pids js) \<longleftrightarrow> p \<in> set (map pid js)"
  by (auto simp: used_pids_def in_use_def)

lemma cleared_not_used:
  "distinct (used_pids js) \<Longrightarrow> i < length js \<Longrightarrow> pid (js ! i) = p \<Longrightarrow> p \<noteq> 0 \<Longrightarrow>
     p \<notin> set (used_pids (js[i := clearjob x]))"
proof (induction js arbitrary: i)
  case Nil
  then show ?case by simp
next
  case (Cons a js)
  show ?case
  proof (cases i)
    case 0
    with Cons.prems show ?thesis
      by (auto simp: used_pids_def in_use_def clearjob_def)
  next
    case (Suc k)
    with Cons.prems have k: "k < length js" "pid (js ! k) = p" by auto
    then have m: "p \<in> set (used_pids js)"
      using Cons.prems(4) by (auto simp: used_pids_def in_use_def in_set_conv_nth)
    from Cons.prems(1) have d: "distinct (used_pids js)"
      by (auto simp: used_pids_def split: if_splits)
    from Cons.prems(1) m have "in_use a \<Longrightarrow> pid a \<noteq> p"
      by (auto simp: used_pids_def)
    with Cons.IH [OF d k Cons.prems(4)] Suc show ?thesis
      by (auto simp: used_pids_def)
  qed
qed

lemma cleared_not_in_table:
  assumes t: "pids_distinct js" and i: "i < length js" and p: "pid (js ! i) = p" and p0: "p \<noteq> 0"
  shows "p \<notin> set (map pid (js[i := clearjob (js ! i)]))"
proof -
  from t have "distinct (used_pids js)" by (simp add: pids_distinct_def)
  from cleared_not_used [OF this i p p0] used_pids_mem [OF p0] show ?thesis by simp
qed

lemma deletejob_removes:
  assumes t: "pids_distinct (jobs s)" and p: "0 < p" and m: "p \<in> set (map pid (jobs s))"
  shows "\<exists>i<length (jobs s). pid (jobs s ! i) = p
    \<and> jobs (snd (deletejob p s)) = (jobs s)[i := \<lparr>pid = 0, jid = 0, state = UNDEF, cmdline = []\<rparr>]
    \<and> p \<notin> set (map pid (jobs (snd (deletejob p s))))"
proof -
  from m obtain i where i: "first_slot (\<lambda>j. pid j = p) (jobs s) = Some i"
    "i < length (jobs s)" "pid (jobs s ! i) = p"
    by (rule in_table_slot)
  from p have np: "\<not> p < 1" "p \<noteq> 0" by simp_all
  from cleared_not_in_table [OF t i(2,3) np(2)] i(2,3) show ?thesis
    by (auto simp: deletejob_deletes [OF np(1) i(1)] clearjob_eq)
qed

text \<open>
  What the handler does with a child that has terminated. In a table whose process ids are
  distinct, a child \<open>p\<close> that is in the table and is reaped as exited or as killed by a
  signal is removed from the table: its slot is cleared and no slot holds \<open>p\<close> any more; for
  a kill the handler writes \<^verbatim>\<open>Job [jid] (pid) terminated by signal n\<close> first. The loop goes
  on with the next child.
\<close>

lemma reap_terminated:
  assumes "0 < p" and "pids_distinct (jobs s)" and "p \<in> set (map pid (jobs s))"
  shows "(\<exists>i<length (jobs s). pid (jobs s ! i) = p
          \<and> jobs (reap p (WExited k) s) =
               (jobs s)[i := \<lparr>pid = 0, jid = 0, state = UNDEF, cmdline = []\<rparr>])
    \<and> p \<notin> set (map pid (jobs (reap p (WExited k) s)))
    \<and> out (reap p (WExited k) s) = out s
    \<and> (\<exists>i<length (jobs s). pid (jobs s ! i) = p
          \<and> jobs (reap p (WSignaled m) s) =
               (jobs s)[i := \<lparr>pid = 0, jid = 0, state = UNDEF, cmdline = []\<rparr>])
    \<and> p \<notin> set (map pid (jobs (reap p (WSignaled m) s)))
    \<and> out (reap p (WSignaled m) s) =
         out s @ [Written (signal_msg ''terminated'' (pid2jid (jobs s) p) p m)]
    \<and> sigchld_handler ((p, w) # rest) s = sigchld_handler rest (reap p w s)"
proof -
  let ?s = "s\<lparr>out := out s @ [Written (signal_msg ''terminated'' (pid2jid (jobs s) p) p m)]\<rparr>"
  have o: "out (snd (deletejob p s')) = out s'" for s'
    by (simp add: deletejob_def Let_def split: option.splits)
  from deletejob_removes [OF assms(2,1,3)] deletejob_removes [of ?s p] assms o [of s] o [of ?s]
  show ?thesis by (auto simp: reap_def)
qed

text \<open>
  What the handler does with a child that has stopped: it writes the notice, and the state
  is the one before with that notice added. No field of the job table is written.
\<close>

lemma reap_stopped:
  "reap p (WStopped n) s =
     s\<lparr>out := out s @ [Written (signal_msg ''stopped'' (pid2jid (jobs s) p) p n)]\<rparr>"
  by (simp add: reap_def)

text \<open>
  C3: for a child in the table that is reaped as stopped by a signal, the handler writes
  \<^verbatim>\<open>Job [jid] (pid) stopped by signal N\<close> and sets the state of the job to Stopped; a
  child that has exited or was killed is removed from the table. The code breaks the part
  about stopped children, and the theorem evaluates it on two runs. The handler asks
  \<^verbatim>\<open>waitpid\<close> for stopped children and writes the notice, but it does not record the
  stop. A background job stopped by signal 19 keeps the state Background, and \<^verbatim>\<open>jobs\<close>
  lists it as \<^verbatim>\<open>Running\<close> right after the notice. A foreground job stopped by signal 19
  keeps the state Foreground: the loop test of \<^verbatim>\<open>waitfg\<close> still holds and the shell
  suspends again, waiting for a job that is stopped. When the stop comes from ctrl-z,
  \<^verbatim>\<open>sigtstp_handler\<close> records it and the shell returns to the prompt.
\<close>

theorem sigchld_stop_not_recorded:
  "(case run stopped_bg (init_sys False) of
      Inr c \<Rightarrow>
        at c = AtPrompt
        \<and> out (sh c) =
            [Written ''[1] (100) /bin/sleep 5 &\<newline>'',
             Written ''Job [1] (100) stopped by signal 19\<newline>'',
             Printed ''[1] (100) '', Printed ''Running '', Printed ''/bin/sleep 5 &\<newline>'']
        \<and> map state (filter in_use (jobs (sh c))) = [BG]
    | Inl x \<Rightarrow> False)
   \<and> (case run stopped_fg (init_sys False) of
      Inr c \<Rightarrow>
        at c = Suspended 100
        \<and> out (sh c) = [Written ''Job [1] (100) stopped by signal 19\<newline>'']
        \<and> map state (filter in_use (jobs (sh c))) = [FG]
        \<and> waitfg_test 100 (sh c)
    | Inl x \<Rightarrow> False)
   \<and> (case run session (init_sys False) of
      Inr c \<Rightarrow> at c = AtPrompt \<and> map state (filter in_use (jobs (sh c))) = [ST]
    | Inl x \<Rightarrow> False)
   \<and> BG \<noteq> ST \<and> FG \<noteq> ST"
  by code_simp

section \<open>The \<^verbatim>\<open>fg\<close> and \<^verbatim>\<open>bg\<close> builtins\<close>

text \<open>
  C4: \<^verbatim>\<open>fg\<close> or \<^verbatim>\<open>bg\<close> with a job specification that resolves to no job in the table
  reports an error, and the read-eval loop goes on with the table unchanged. The code
  breaks this, and the theorem evaluates it on four such lines: \<^verbatim>\<open>fg %1\<close> with no job 1,
  \<^verbatim>\<open>bg %7\<close> with job 1 only, \<^verbatim>\<open>fg\<close> without an argument and \<^verbatim>\<open>fg 1\<close> (no percent
  sign, so that \<^verbatim>\<open>jid\<close> keeps its indeterminate value, here 0) all end in the use of a
  null pointer: no message is written and the read-eval loop does not go on.
\<close>

theorem fg_unknown_job_crashes:
  "run [Line os0 ''fg %1\<newline>''] (init_sys False) = Inl (Crashed NullDeref)
   \<and> run [Line os1 ''bg %7\<newline>''] \<lparr>sh = bg_shell, at = AtPrompt\<rparr> = Inl (Crashed NullDeref)
   \<and> run [Line os0 ''fg\<newline>''] (init_sys False) = Inl (Crashed NullDeref)
   \<and> run [Line os0 ''fg 1\<newline>''] (init_sys False) = Inl (Crashed NullDeref)"
  by code_simp

section \<open>The foreground wait\<close>

text \<open>
  The loop test of \<^verbatim>\<open>waitfg(pid)\<close> holds exactly when \<^verbatim>\<open>pid\<close> is in the table and is the
  process id \<^verbatim>\<open>fgpid\<close> returns.
\<close>

lemma waitfg_test_iff:
  assumes t: "table_ok (jobs s)"
  shows "waitfg_test p s \<longleftrightarrow> p \<in> set (used_pids (jobs s)) \<and> fgpid (jobs s) = p"
proof
  assume w: "waitfg_test p s"
  then have p1: "\<not> p < 1" by (auto simp: waitfg_test_def pid2jid_def split: if_splits)
  with w obtain i where "first_slot (\<lambda>j. pid j = p) (jobs s) = Some i"
    by (auto simp: waitfg_test_def pid2jid_def split: option.splits)
  from first_slot_Some [OF this] have "i < length (jobs s)" "pid (jobs s ! i) = p"
    by auto
  then have "p \<in> set (map pid (jobs s))"
    using nth_mem [of i "jobs s"] by (auto simp: image_iff)
  with p1 w show "p \<in> set (used_pids (jobs s)) \<and> fgpid (jobs s) = p"
    by (auto simp: used_pids_def in_use_def waitfg_test_def)
next
  assume a: "p \<in> set (used_pids (jobs s)) \<and> fgpid (jobs s) = p"
  then have p0: "p \<noteq> 0" and m: "p \<in> set (map pid (jobs s))"
    by (auto simp: used_pids_def in_use_def)
  from m obtain i where i: "first_slot (\<lambda>j. pid j = p) (jobs s) = Some i"
    "i < length (jobs s)" "pid (jobs s ! i) = p"
    by (rule in_table_slot)
  from i(2) have "jobs s ! i \<in> set (jobs s)" by simp
  from table_okD [OF t this] i(3) p0 have "0 < p" "jid (jobs s ! i) \<noteq> 0" by auto
  with i(1) a show "waitfg_test p s" by (simp add: waitfg_test_def pid2jid_def)
qed



text \<open>
  C7: \<^verbatim>\<open>waitfg(pid)\<close> stays suspended exactly while \<^verbatim>\<open>pid\<close> is in the table and is the
  foreground job, and returns as soon as it is not. The code breaks this, and the theorem
  evaluates it on such a run: the signals are not blocked between the loop test and
  \<^verbatim>\<open>sigsuspend\<close>; when the child is reaped there, the handler deletes the job before
  \<^verbatim>\<open>sigsuspend\<close> is entered, and \<^verbatim>\<open>waitfg\<close> suspends although the process id is no
  longer in the table. It stays suspended until some other signal is delivered.
\<close>

theorem waitfg_suspended_after_job_is_gone:
  "(case run (take 2 race) (init_sys False) of
      Inr c \<Rightarrow> at c = WaitEnter 100 \<and> waitfg_test 100 (sh c)
    | Inl x \<Rightarrow> False)
   \<and> (case run race (init_sys False) of
      Inr c \<Rightarrow> at c = Suspended 100 \<and> 100 \<notin> set (map pid (jobs (sh c)))
                \<and> \<not> waitfg_test 100 (sh c)
    | Inl x \<Rightarrow> False)
   \<and> (case run (race @ [Advance, Advance, Advance]) (init_sys False) of
      Inr c \<Rightarrow> at c = Suspended 100
    | Inl x \<Rightarrow> False)"
  by code_simp

section \<open>Builtin commands in \<^verbatim>\<open>eval\<close>\<close>











section \<open>parseline\<close>

subsection \<open>The tokens of a line without quoted arguments\<close>

lemma split_on_append:
  "\<forall>c\<in>set a. \<not> d c \<Longrightarrow> split_on d (a @ b) cur = split_on d b (cur @ a)"
  by (induction a arbitrary: cur) auto

lemma split_on_skip: "split_on d (dropWhile d l) [] = split_on d l []"
  by (induction l) auto

lemma split_on_snoc: "d c \<Longrightarrow> split_on d (l @ [c]) cur = split_on d l cur"
  by (induction l arbitrary: cur) auto

lemma split_on_nonempty: "t \<in> set (split_on d l cur) \<Longrightarrow> t \<noteq> []"
  by (induction l arbitrary: cur) (auto split: if_splits)

lemma tokens_Nil: "tokens [] = []"
  by (simp add: tokens.simps find_delim_def strchr_split_def)

lemma tokens_space_tokens:
  "buf = [] \<or> last buf = space \<Longrightarrow> \<forall>t\<in>set (space_tokens buf). hd t \<noteq> quote \<Longrightarrow>
     tokens (skip_spaces buf) = space_tokens buf"
proof (induction buf rule: length_induct)
  case (1 buf)
  let ?sp = "\<lambda>c. c = space"
  let ?b = "skip_spaces buf"
  have st: "space_tokens buf = split_on ?sp ?b []"
    by (simp add: space_tokens_def skip_spaces_def split_on_skip)
  show ?case
  proof (cases "?b = []")
    case True
    with st show ?thesis by (simp add: tokens_Nil)
  next
    case False
    then have bne: "buf \<noteq> []" by (auto simp: skip_spaces_def)
    have "buf = takeWhile ?sp buf @ ?b" by (simp add: skip_spaces_def)
    with False have "last buf = last ?b" by (metis last_appendR)
    with "1.prems"(1) bne have lb: "last ?b = space" by simp
    with False have m: "space \<in> set ?b" by (metis last_in_set)
    from False have h: "hd ?b \<noteq> space"
      unfolding skip_spaces_def by (metis (mono_tags, lifting) hd_dropWhile)
    define a where "a = takeWhile (\<lambda>x. x \<noteq> space) ?b"
    define r where "r = tl (dropWhile (\<lambda>x. x \<noteq> space) ?b)"
    from m have dne: "dropWhile (\<lambda>x. x \<noteq> space) ?b \<noteq> []" by simp
    then have "hd (dropWhile (\<lambda>x. x \<noteq> space) ?b) = space"
      using hd_dropWhile [of "\<lambda>x. x \<noteq> space" ?b] by simp
    with hd_Cons_tl [OF dne] have dw: "dropWhile (\<lambda>x. x \<noteq> space) ?b = space # r"
      unfolding r_def by metis
    have b: "?b = a @ space # r"
      unfolding a_def dw [symmetric] by simp
    from False h have ane: "a \<noteq> []" by (cases ?b) (auto simp: a_def)
    with b have ha: "hd a = hd ?b" by simp
    have na: "\<forall>c\<in>set a. \<not> ?sp c" by (auto simp: a_def dest: set_takeWhileD)
    have "split_on ?sp ?b [] = split_on ?sp (space # r) a"
      using split_on_append [OF na, of "space # r" "[]"] b by simp
    with ane st have sp: "space_tokens buf = a # space_tokens r"
      by (simp add: space_tokens_def)
    with "1.prems"(2) have q: "hd a \<noteq> quote" "\<forall>t\<in>set (space_tokens r). hd t \<noteq> quote"
      by simp_all
    from b lb have lr: "r = [] \<or> last r = space" by (cases "r = []") auto
    have "length r < length ?b" using b by simp
    also have "\<dots> \<le> length buf" unfolding skip_spaces_def by (rule length_dropWhile_le)
    finally have "length r < length buf" .
    with "1.IH" lr q(2) have ih: "tokens (skip_spaces r) = space_tokens r" by blast
    from q(1) ha False have "find_delim ?b = strchr_split space ?b"
      by (cases ?b) (auto simp: find_delim_def)
    with m have "find_delim ?b = Some (a, r)"
      by (simp add: strchr_split_def a_def r_def)
    then have "tokens ?b = a # tokens (skip_spaces r)"
      by (subst tokens.simps) simp
    with ih sp show ?thesis by simp
  qed
qed

subsection \<open>The background flag\<close>

text \<open>
  C10, as the code has it. Take a line that ends in a newline, fits the line buffer, has
  fewer than \<^verbatim>\<open>MAXARGS\<close> tokens, and none of whose tokens starts with a single quote; its
  tokens are the runs of characters between space characters (the only delimiter of
  \<^verbatim>\<open>parseline\<close>), the final newline left out. \<^verbatim>\<open>parseline\<close> reports a background job
  exactly when there is no token (the argument vector is then empty) or the last token
  starts with an ampersand; in the latter case the whole last token is left out of the
  argument vector.
\<close>

theorem parseline_background:
  assumes "cl \<noteq> []" and "last cl = nl" and "length cl < MAXLINE"
    and "\<forall>t\<in>set (space_tokens (butlast cl)). hd t \<noteq> quote"
    and "length (space_tokens (butlast cl)) < MAXARGS"
  shows "parseline cl =
    Inr (bg_requested (space_tokens (butlast cl)), args_requested (space_tokens (butlast cl)))"
proof -
  let ?ts = "space_tokens (butlast cl)"
  have e: "space_tokens (butlast cl @ [space]) = ?ts"
    by (simp add: space_tokens_def split_on_snoc)
  with assms(4) have "\<forall>t\<in>set (space_tokens (butlast cl @ [space])). hd t \<noteq> quote" by simp
  with tokens_space_tokens [of "butlast cl @ [space]"] e
  have t: "tokens (skip_spaces (butlast cl @ [space])) = ?ts" by simp
  have "?ts \<noteq> [] \<Longrightarrow> last ?ts \<noteq> []"
    using split_on_nonempty [of "last ?ts" "\<lambda>c. c = space" "butlast cl" "[]"]
    by (simp add: space_tokens_def)
  with assms(1,3,5) t show ?thesis
    by (auto simp: parseline_def Let_def bg_requested_def args_requested_def)
qed

theorem parseline_background_witness:
  "''ls -l &x\<newline>'' \<noteq> [] \<and> last ''ls -l &x\<newline>'' = nl
   \<and> space_tokens ''ls -l &x'' = [''ls'', ''-l'', ''&x'']
   \<and> parseline ''ls -l &x\<newline>'' = Inr (True, [''ls'', ''-l''])
   \<and> parseline ''  \<newline>'' = Inr (True, [])
   \<and> parseline ''ls -l\<newline>'' = Inr (False, [''ls'', ''-l''])"
proof -
  have a: "space_tokens (butlast ''ls -l &x\<newline>'') = [''ls'', ''-l'', ''&x'']"
    "space_tokens (butlast ''  \<newline>'') = []"
    "space_tokens (butlast ''ls -l\<newline>'') = [''ls'', ''-l'']"
    by code_simp+
  from parseline_background [of "''ls -l &x\<newline>''"] parseline_background [of "''  \<newline>''"]
    parseline_background [of "''ls -l\<newline>''"] a
  show ?thesis by (simp add: bg_requested_def args_requested_def)
qed

text \<open>
  C10, as stated, fails on a quoted argument: in \<^verbatim>\<open>x '&'\<close> the last token delimited by
  white space starts with a single quote, yet \<^verbatim>\<open>parseline\<close> strips the quotes, reports a
  background job and removes the argument.
\<close>

theorem quoted_ampersand_is_background:
  "parseline quoted_amp = Inr (True, [''x''])
   \<and> ws_tokens quoted_amp = [''x'', [quote, CHR ''&'', quote]]
   \<and> \<not> bg_requested (ws_tokens quoted_amp)"
  by code_simp

end
